theory Spec2Isabelle
  imports Complex_Main "HOL-Library.Monad_Syntax"
begin

section \<open>Conventions of the embedding\<close>

text \<open>
  The Go sources are embedded shallowly.  A Go \<^verbatim>\<open>int\<close> is an \<^typ>\<open>int\<close> (the index
  arithmetic of the tensors stays far below 64 bits for every slice that can be
  allocated, so wrap-around is not written out).  A \<^verbatim>\<open>float32\<close> is idealised: where
  only \<open>+\<close>, \<open>*\<close> and \<open>0\<close> are used the carrier is an arbitrary type with these
  operations and no algebraic law; where comparison, division or square roots are
  used the carrier is \<^typ>\<open>real\<close>, so rounding, overflow to infinity and NaN are outside
  the model.  A slice is a list; a nil pointer is \<open>None\<close>; a run-time panic of a
  computation is the result \<open>None\<close>.
\<close>

section \<open>Go run-time model\<close>

text \<open>What a panic carries.  The first two wrap the error value of the validator.\<close>

datatype conv_error =
    InputIsNil
  | KernelIsNil
  | BiasLengthMismatch int int
  | ChannelsMismatch int int
  | StrideNotPositive int
  | PaddingNegative int
  | InputTooSmall

datatype pool_error =
    PoolInputIsNil
  | KernelSizeNotPositive int
  | PoolStrideNotPositive int
  | KernelLargerThanInput int int int
  | InvalidOutputDims int int

datatype panic =
    Conv2DValidationFailed conv_error
  | PoolingValidationFailed pool_error
  | BatchNormMismatch
  | DepthwiseMismatch
  | RuntimeError

text \<open>
  A call either returns its value or panics.  None of the operations below has an
  error result in its Go signature.
\<close>

datatype 'a outcome = Returned 'a | Panicked panic

text \<open>A computation that stops with a run-time error (index out of range, negative
  length in \<^verbatim>\<open>make\<close>, integer division by zero, nil dereference, the
  \<^verbatim>\<open>panic\<close> of \<^verbatim>\<open>poolWindow\<close> on an unknown pooling type) is \<open>None\<close>.\<close>

definition of_option :: "'a option \<Rightarrow> 'a outcome" where
  "of_option m = (case m of None \<Rightarrow> Panicked RuntimeError | Some x \<Rightarrow> Returned x)"

text \<open>\<^verbatim>\<open>xs[i]\<close> as a read and as an assignment.\<close>

definition slice_get :: "'a list \<Rightarrow> int \<Rightarrow> 'a option" where
  "slice_get xs i = (if 0 \<le> i \<and> i < int (length xs) then Some (xs ! nat i) else None)"

definition slice_set :: "'a list \<Rightarrow> int \<Rightarrow> 'a \<Rightarrow> 'a list option" where
  "slice_set xs i v = (if 0 \<le> i \<and> i < int (length xs) then Some (xs[nat i := v]) else None)"

text \<open>\<^verbatim>\<open>make([]float32, n)\<close>.\<close>

definition make_slice :: "int \<Rightarrow> ('a::zero) list option" where
  "make_slice n = (if n < 0 then None else Some (replicate (nat n) 0))"

text \<open>\<^verbatim>\<open>copy(dst, src)\<close> copies \<open>min(len(dst), len(src))\<close> elements.\<close>

definition go_copy :: "'a list \<Rightarrow> 'a list \<Rightarrow> 'a list" where
  "go_copy dst src = take (min (length dst) (length src)) src
                     @ drop (min (length dst) (length src)) dst"

text \<open>Integer division truncates toward zero and panics on a zero divisor.\<close>

definition go_quot :: "int \<Rightarrow> int \<Rightarrow> int" where
  "go_quot a b = sgn a * sgn b * (\<bar>a\<bar> div \<bar>b\<bar>)"

definition go_div :: "int \<Rightarrow> int \<Rightarrow> int option" where
  "go_div a b = (if b = 0 then None else Some (go_quot a b))"

text \<open>\<^verbatim>\<open>for _, x := range xs { s = body x s }\<close>, stopping at the first panic.\<close>

primrec for_each :: "'i list \<Rightarrow> ('i \<Rightarrow> 's \<Rightarrow> 's option) \<Rightarrow> 's \<Rightarrow> 's option" where
  "for_each [] body s = Some s"
| "for_each (x # xs) body s = Option.bind (body x s) (for_each xs body)"

text \<open>
  \<^verbatim>\<open>for i := start; i < limit; i += step { s = body i s }\<close>.  With a step that is not
  positive the loop need not end, so the loop is a partial function and not
  returning is \<open>None\<close>.  The counting loops \<^verbatim>\<open>for i := a; i < b; i++\<close> are
  \<open>for_each [a..b - 1]\<close>.
\<close>

partial_function (option) for_step ::
  "int \<Rightarrow> int \<Rightarrow> int \<Rightarrow> (int \<Rightarrow> 's \<Rightarrow> 's option) \<Rightarrow> 's \<Rightarrow> 's option" where
  "for_step start limit step body s =
     (if start < limit
      then Option.bind (body start s) (\<lambda>s'. for_step (start + step) limit step body s')
      else Some s)"

declare for_step.simps [code]

section \<open>Tensor data model (internal/tensor)\<close>

record 'a FeatureMap =
  Height :: int
  Width :: int
  Channels :: int
  Data :: "'a list"

text \<open>The field \<^verbatim>\<open>Channels\<close> of the kernel is \<open>KChannels\<close> here.\<close>

record 'a Kernel =
  Size :: int
  KChannels :: int
  Filters :: int
  Weights :: "'a list"

definition NewFeatureMap :: "int \<Rightarrow> int \<Rightarrow> int \<Rightarrow> ('a::zero) FeatureMap option" where
  "NewFeatureMap height width channels =
     map_option (\<lambda>d. \<lparr>Height = height, Width = width, Channels = channels, Data = d\<rparr>)
       (make_slice (height * width * channels))"

definition NewKernel :: "int \<Rightarrow> int \<Rightarrow> int \<Rightarrow> ('a::zero) Kernel option" where
  "NewKernel sz channels filters =
     map_option (\<lambda>d. \<lparr>Size = sz, KChannels = channels, Filters = filters, Weights = d\<rparr>)
       (make_slice (sz * sz * channels * filters))"

definition isValidIndex :: "'a FeatureMap \<Rightarrow> int \<Rightarrow> int \<Rightarrow> int \<Rightarrow> bool" where
  "isValidIndex fm c h w \<longleftrightarrow>
     c \<ge> 0 \<and> c < Channels fm \<and> h \<ge> 0 \<and> h < Height fm \<and> w \<ge> 0 \<and> w < Width fm"

text \<open>\<^verbatim>\<open>Get\<close> panics on an invalid index; the panic is \<open>None\<close>.\<close>

definition Get :: "'a FeatureMap \<Rightarrow> int \<Rightarrow> int \<Rightarrow> int \<Rightarrow> 'a option" where
  "Get fm c h w =
     (if \<not> isValidIndex fm c h w then None
      else slice_get (Data fm) (c * Height fm * Width fm + h * Width fm + w))"

definition GetUnsafe :: "'a FeatureMap \<Rightarrow> int \<Rightarrow> int \<Rightarrow> int \<Rightarrow> 'a option" where
  "GetUnsafe fm c h w = slice_get (Data fm) (c * Height fm * Width fm + h * Width fm + w)"

definition SetUnsafe :: "'a FeatureMap \<Rightarrow> int \<Rightarrow> int \<Rightarrow> int \<Rightarrow> 'a \<Rightarrow> 'a FeatureMap option" where
  "SetUnsafe fm c h w v =
     map_option (\<lambda>d. fm\<lparr>Data := d\<rparr>)
       (slice_set (Data fm) (c * Height fm * Width fm + h * Width fm + w) v)"

definition GetWeightUnsafe :: "'a Kernel \<Rightarrow> int \<Rightarrow> int \<Rightarrow> int \<Rightarrow> int \<Rightarrow> 'a option" where
  "GetWeightUnsafe k f c h w =
     slice_get (Weights k)
       (f * KChannels k * Size k * Size k + c * Size k * Size k + h * Size k + w)"

definition Clone :: "('a::zero) FeatureMap \<Rightarrow> 'a FeatureMap option" where
  "Clone fm = do {
     clone \<leftarrow> NewFeatureMap (Height fm) (Width fm) (Channels fm);
     Some (clone\<lparr>Data := go_copy (Data clone) (Data fm)\<rparr>)
   }"

definition PadFeatureMap :: "('a::zero) FeatureMap \<Rightarrow> int \<Rightarrow> 'a FeatureMap option" where
  "PadFeatureMap input padding =
     (if padding \<le> 0 then Clone input
      else do {
        let newHeight = Height input + 2 * padding;
        let newWidth = Width input + 2 * padding;
        padded \<leftarrow> NewFeatureMap newHeight newWidth (Channels input);
        for_each [0..Channels input - 1] (\<lambda>c.
          for_each [0..Height input - 1] (\<lambda>h.
            for_each [0..Width input - 1] (\<lambda>w padded. do {
              value \<leftarrow> GetUnsafe input c h w;
              SetUnsafe padded c (h + padding) (w + padding) value
            }))) padded
      })"

text \<open>The invariants of the data model: the dimensions are not negative and the flat
  array has exactly the length they give.\<close>

definition wf_FeatureMap :: "'a FeatureMap \<Rightarrow> bool" where
  "wf_FeatureMap fm \<longleftrightarrow>
     0 \<le> Height fm \<and> 0 \<le> Width fm \<and> 0 \<le> Channels fm
     \<and> int (length (Data fm)) = Height fm * Width fm * Channels fm"

definition wf_Kernel :: "'a Kernel \<Rightarrow> bool" where
  "wf_Kernel k \<longleftrightarrow>
     0 \<le> Size k \<and> 0 \<le> KChannels k \<and> 0 \<le> Filters k
     \<and> int (length (Weights k)) = Size k * Size k * KChannels k * Filters k"

section \<open>Convolution (internal/ops/conv.go)\<close>

record Conv2DConfig =
  Padding :: int
  Stride :: int

definition validateConv2DInputs ::
  "'a FeatureMap option \<Rightarrow> 'a Kernel option \<Rightarrow> 'a list \<Rightarrow> Conv2DConfig \<Rightarrow> conv_error option" where
  "validateConv2DInputs input kern bias config =
     (case input of None \<Rightarrow> Some InputIsNil | Some inp \<Rightarrow>
      (case kern of None \<Rightarrow> Some KernelIsNil | Some ker \<Rightarrow>
       if int (length bias) \<noteq> Filters ker
         then Some (BiasLengthMismatch (int (length bias)) (Filters ker))
       else if Channels inp \<noteq> KChannels ker
         then Some (ChannelsMismatch (Channels inp) (KChannels ker))
       else if Stride config \<le> 0 then Some (StrideNotPositive (Stride config))
       else if Padding config < 0 then Some (PaddingNegative (Padding config))
       else (let paddedHeight = Height inp + 2 * Padding config;
                 paddedWidth = Width inp + 2 * Padding config
             in if paddedHeight < Size ker \<or> paddedWidth < Size ker then Some InputTooSmall
                else None)))"

text \<open>The body of the two outer loops of \<^verbatim>\<open>convolveFilter\<close>: the sum over the
  receptive field of output position \<open>(i, j)\<close> and the store of \<open>sum + bias\<close>.\<close>

definition convolveFilter_at ::
  "('a::{zero,plus,times}) FeatureMap \<Rightarrow> 'a Kernel \<Rightarrow> int \<Rightarrow> 'a \<Rightarrow> Conv2DConfig \<Rightarrow>
   int \<Rightarrow> int \<Rightarrow> 'a FeatureMap \<Rightarrow> 'a FeatureMap option" where
  "convolveFilter_at input kern filterIdx bias config i j output = do {
     sum \<leftarrow> for_each [0..KChannels kern - 1] (\<lambda>c.
              for_each [0..Size kern - 1] (\<lambda>m.
                for_each [0..Size kern - 1] (\<lambda>n sum. do {
                  let inputH = i * Stride config + m;
                  let inputW = j * Stride config + n;
                  inputVal \<leftarrow> GetUnsafe input c inputH inputW;
                  kernelWeight \<leftarrow> GetWeightUnsafe kern filterIdx c m n;
                  Some (sum + inputVal * kernelWeight)
                }))) 0;
     SetUnsafe output filterIdx i j (sum + bias)
   }"

definition convolveFilter ::
  "('a::{zero,plus,times}) FeatureMap \<Rightarrow> 'a Kernel \<Rightarrow> 'a FeatureMap \<Rightarrow> int \<Rightarrow> 'a \<Rightarrow>
   Conv2DConfig \<Rightarrow> 'a FeatureMap option" where
  "convolveFilter input kern output filterIdx bias config =
     for_each [0..Height output - 1] (\<lambda>i.
       for_each [0..Width output - 1] (\<lambda>j.
         convolveFilter_at input kern filterIdx bias config i j)) output"

text \<open>What \<^verbatim>\<open>Conv2D\<close>, \<^verbatim>\<open>Conv2DParallel\<close> and \<^verbatim>\<open>conv2DTiled\<close> do before their loops: pad,
  compute the output dimensions and allocate the output.\<close>

definition conv_prepare ::
  "('a::zero) FeatureMap \<Rightarrow> 'a Kernel \<Rightarrow> Conv2DConfig \<Rightarrow> ('a FeatureMap \<times> 'a FeatureMap) option" where
  "conv_prepare input kern config = do {
     paddedInput \<leftarrow> (if Padding config > 0 then PadFeatureMap input (Padding config)
                     else Some input);
     qh \<leftarrow> go_div (Height paddedInput - Size kern) (Stride config);
     qw \<leftarrow> go_div (Width paddedInput - Size kern) (Stride config);
     let outHeight = qh + 1;
     let outWidth = qw + 1;
     output \<leftarrow> NewFeatureMap outHeight outWidth (Filters kern);
     Some (paddedInput, output)
   }"

definition Conv2D ::
  "('a::{zero,plus,times}) FeatureMap option \<Rightarrow> 'a Kernel option \<Rightarrow> 'a list \<Rightarrow> Conv2DConfig \<Rightarrow>
   'a FeatureMap outcome" where
  "Conv2D input kern bias config =
     (case validateConv2DInputs input kern bias config of
        Some err \<Rightarrow> Panicked (Conv2DValidationFailed err)
      | None \<Rightarrow>
        (case (input, kern) of
           (Some inp, Some ker) \<Rightarrow> of_option (do {
              (paddedInput, output) \<leftarrow> conv_prepare inp ker config;
              for_each [0..Filters ker - 1] (\<lambda>f output. do {
                b \<leftarrow> slice_get bias f;
                convolveFilter paddedInput ker output f b config
              }) output
            })
         | _ \<Rightarrow> Panicked RuntimeError))"

text \<open>
  \<^verbatim>\<open>Conv2DParallel\<close>.  The workers take filter indices from the channel and run
  \<^verbatim>\<open>convolveFilter\<close> concurrently on the shared output.  An execution is given by its
  schedule: the order in which the steps \<open>(f, i, j)\<close> of all workers take place, a
  step being one pass of the loop body of \<^verbatim>\<open>convolveFilter\<close> for filter \<open>f\<close>.  The
  number of CPUs and the schedule are parameters, since the Go run time chooses
  them.  With no worker no step takes place.
\<close>

definition Conv2DParallel ::
  "int \<Rightarrow> (int \<times> int \<times> int) list \<Rightarrow>
   ('a::{zero,plus,times}) FeatureMap option \<Rightarrow> 'a Kernel option \<Rightarrow> 'a list \<Rightarrow> Conv2DConfig \<Rightarrow>
   'a FeatureMap outcome" where
  "Conv2DParallel numCPU schedule input kern bias config =
     (case validateConv2DInputs input kern bias config of
        Some err \<Rightarrow> Panicked (Conv2DValidationFailed err)
      | None \<Rightarrow>
        (case (input, kern) of
           (Some inp, Some ker) \<Rightarrow> of_option (do {
              (paddedInput, output) \<leftarrow> conv_prepare inp ker config;
              let numWorkers = (if numCPU > Filters ker then Filters ker else numCPU);
              if numWorkers \<le> 0 then Some output
              else for_each schedule (\<lambda>(filterIdx, i, j) output. do {
                b \<leftarrow> slice_get bias filterIdx;
                convolveFilter_at paddedInput ker filterIdx b config i j output
              }) output
            })
         | _ \<Rightarrow> Panicked RuntimeError))"

text \<open>
  The schedules that an execution can have: every step belongs to a filter index
  that was sent on the channel, and the steps of one filter index appear in the
  order of the loops of \<^verbatim>\<open>convolveFilter\<close>, each once (one worker receives the index
  and runs the call).
\<close>

definition worker_schedule :: "int \<Rightarrow> int \<Rightarrow> int \<Rightarrow> (int \<times> int \<times> int) list \<Rightarrow> bool" where
  "worker_schedule filters outHeight outWidth schedule \<longleftrightarrow>
     list_all (\<lambda>a. 0 \<le> fst a \<and> fst a < filters) schedule
     \<and> list_all (\<lambda>f. filter (\<lambda>a. fst a = f) schedule
                      = map (Pair f) (List.product [0..outHeight - 1] [0..outWidth - 1]))
          [0..filters - 1]"

subsection \<open>The convolution engine\<close>

record ConvolutionEngine =
  UseParallel :: bool
  NumWorkers :: int
  BlockSize :: int

definition NewConvolutionEngine :: ConvolutionEngine where
  "NewConvolutionEngine = \<lparr>UseParallel = True, NumWorkers = 0, BlockSize = 0\<rparr>"

definition processTile ::
  "('a::{zero,plus,times}) FeatureMap \<Rightarrow> 'a Kernel \<Rightarrow> 'a FeatureMap \<Rightarrow> 'a list \<Rightarrow> Conv2DConfig \<Rightarrow>
   int \<Rightarrow> int \<Rightarrow> int \<Rightarrow> int \<Rightarrow> int \<Rightarrow> int \<Rightarrow> 'a FeatureMap option" where
  "processTile input kern output bias config filterStart filterEnd rowStart rowEnd colStart colEnd =
     for_each [filterStart..filterEnd - 1] (\<lambda>f.
       for_each [rowStart..rowEnd - 1] (\<lambda>i.
         for_each [colStart..colEnd - 1] (\<lambda>j output. do {
           sum \<leftarrow> for_each [0..KChannels kern - 1] (\<lambda>c.
                    for_each [0..Size kern - 1] (\<lambda>m.
                      for_each [0..Size kern - 1] (\<lambda>n sum. do {
                        let inputH = i * Stride config + m;
                        let inputW = j * Stride config + n;
                        inputVal \<leftarrow> GetUnsafe input c inputH inputW;
                        kernelWeight \<leftarrow> GetWeightUnsafe kern f c m n;
                        Some (sum + inputVal * kernelWeight)
                      }))) 0;
           b \<leftarrow> slice_get bias f;
           SetUnsafe output f i j (sum + b)
         }))) output"

definition conv2DTiled ::
  "ConvolutionEngine \<Rightarrow> ('a::{zero,plus,times}) FeatureMap option \<Rightarrow> 'a Kernel option \<Rightarrow>
   'a list \<Rightarrow> Conv2DConfig \<Rightarrow> 'a FeatureMap outcome" where
  "conv2DTiled ce input kern bias config =
     (case (input, kern) of
        (Some inp, Some ker) \<Rightarrow> of_option (do {
           (paddedInput, output) \<leftarrow> conv_prepare inp ker config;
           let outHeight = Height output;
           let outWidth = Width output;
           let tileSize = (if BlockSize ce = 0 then 32 else BlockSize ce);
           for_step 0 (Filters ker) tileSize (\<lambda>filterStart.
             let filterEnd = (if filterStart + tileSize > Filters ker then Filters ker
                              else filterStart + tileSize) in
             for_step 0 outHeight tileSize (\<lambda>outRowStart.
               let outRowEnd = (if outRowStart + tileSize > outHeight then outHeight
                                else outRowStart + tileSize) in
               for_step 0 outWidth tileSize (\<lambda>outColStart output.
                 let outColEnd = (if outColStart + tileSize > outWidth then outWidth
                                  else outColStart + tileSize) in
                 processTile paddedInput ker output bias config
                   filterStart filterEnd outRowStart outRowEnd outColStart outColEnd)))
             output
         })
      | _ \<Rightarrow> Panicked RuntimeError)"

subsection \<open>Depthwise convolution (internal/ops/conv\_specialized.go)\<close>

text \<open>The pointer arguments of the operations from here on are taken as not nil.\<close>

definition DepthwiseConv2D ::
  "('a::{zero,plus,times}) FeatureMap \<Rightarrow> 'a Kernel \<Rightarrow> 'a list \<Rightarrow> Conv2DConfig \<Rightarrow>
   'a FeatureMap outcome" where
  "DepthwiseConv2D input kern bias config =
     (if Filters kern \<noteq> Channels input then Panicked DepthwiseMismatch
      else of_option (do {
        (paddedInput, output) \<leftarrow> conv_prepare input kern config;
        let outHeight = Height output;
        let outWidth = Width output;
        for_each [0..Channels input - 1] (\<lambda>c.
          for_each [0..outHeight - 1] (\<lambda>i.
            for_each [0..outWidth - 1] (\<lambda>j output. do {
              sum \<leftarrow> for_each [0..Size kern - 1] (\<lambda>m.
                       for_each [0..Size kern - 1] (\<lambda>n sum. do {
                         let inputH = i * Stride config + m;
                         let inputW = j * Stride config + n;
                         inputVal \<leftarrow> GetUnsafe paddedInput c inputH inputW;
                         kernelWeight \<leftarrow> GetWeightUnsafe kern c c m n;
                         Some (sum + inputVal * kernelWeight)
                       })) 0;
              b \<leftarrow> slice_get bias c;
              SetUnsafe output c i j (sum + b)
            }))) output
      }))"

section \<open>Pooling (internal/ops/pooling.go, internal/ops/advanced\_pooling.go)\<close>

text \<open>\<^verbatim>\<open>PoolingType\<close> is an integer type with three named values.\<close>

type_synonym PoolingType = int

definition MaxPooling :: PoolingType where "MaxPooling = 0"
definition AvgPooling :: PoolingType where "AvgPooling = 1"
definition MinPooling :: PoolingType where "MinPooling = 2"

text \<open>The fields \<^verbatim>\<open>Stride\<close> and \<^verbatim>\<open>Type\<close> are \<open>PoolStride\<close> and \<open>PoolType\<close> here.\<close>

record PoolingConfig =
  KernelSize :: int
  PoolStride :: int
  PoolType :: PoolingType

text \<open>When the output dimensions are computed the stride is known to be positive.\<close>

definition validatePoolingInputs :: "'a FeatureMap option \<Rightarrow> PoolingConfig \<Rightarrow> pool_error option" where
  "validatePoolingInputs input config =
     (case input of None \<Rightarrow> Some PoolInputIsNil | Some inp \<Rightarrow>
      if KernelSize config \<le> 0 then Some (KernelSizeNotPositive (KernelSize config))
      else if PoolStride config \<le> 0 then Some (PoolStrideNotPositive (PoolStride config))
      else if KernelSize config > Height inp \<or> KernelSize config > Width inp
        then Some (KernelLargerThanInput (KernelSize config) (Height inp) (Width inp))
      else (let outHeight = go_quot (Height inp - KernelSize config) (PoolStride config) + 1;
                outWidth = go_quot (Width inp - KernelSize config) (PoolStride config) + 1
            in if outHeight \<le> 0 \<or> outWidth \<le> 0 then Some (InvalidOutputDims outHeight outWidth)
               else None))"

definition maxPoolWindow :: "real FeatureMap \<Rightarrow> int \<Rightarrow> int \<Rightarrow> int \<Rightarrow> int \<Rightarrow> int \<Rightarrow> real option" where
  "maxPoolWindow input channel startH endH startW endW = do {
     maxVal \<leftarrow> GetUnsafe input channel startH startW;
     for_each [startH..endH - 1] (\<lambda>h.
       for_each [startW..endW - 1] (\<lambda>w maxVal. do {
         val \<leftarrow> GetUnsafe input channel h w;
         Some (if val > maxVal then val else maxVal)
       })) maxVal
   }"

definition avgPoolWindow :: "real FeatureMap \<Rightarrow> int \<Rightarrow> int \<Rightarrow> int \<Rightarrow> int \<Rightarrow> int \<Rightarrow> real option" where
  "avgPoolWindow input channel startH endH startW endW = do {
     (sum, count) \<leftarrow> for_each [startH..endH - 1] (\<lambda>h.
       for_each [startW..endW - 1] (\<lambda>w (sum, count). do {
         val \<leftarrow> GetUnsafe input channel h w;
         Some (sum + val, count + 1)
       })) (0, 0 :: int);
     Some (if count > 0 then sum / real_of_int count else 0)
   }"

definition minPoolWindow :: "real FeatureMap \<Rightarrow> int \<Rightarrow> int \<Rightarrow> int \<Rightarrow> int \<Rightarrow> int \<Rightarrow> real option" where
  "minPoolWindow input channel startH endH startW endW = do {
     minVal \<leftarrow> GetUnsafe input channel startH startW;
     for_each [startH..endH - 1] (\<lambda>h.
       for_each [startW..endW - 1] (\<lambda>w minVal. do {
         val \<leftarrow> GetUnsafe input channel h w;
         Some (if val < minVal then val else minVal)
       })) minVal
   }"

definition poolWindow ::
  "real FeatureMap \<Rightarrow> int \<Rightarrow> int \<Rightarrow> int \<Rightarrow> int \<Rightarrow> int \<Rightarrow> PoolingType \<Rightarrow> real option" where
  "poolWindow input channel startH endH startW endW poolType =
     (if poolType = MaxPooling then maxPoolWindow input channel startH endH startW endW
      else if poolType = AvgPooling then avgPoolWindow input channel startH endH startW endW
      else if poolType = MinPooling then minPoolWindow input channel startH endH startW endW
      else None)"

definition Pooling2D :: "real FeatureMap option \<Rightarrow> PoolingConfig \<Rightarrow> real FeatureMap outcome" where
  "Pooling2D input config =
     (case validatePoolingInputs input config of
        Some err \<Rightarrow> Panicked (PoolingValidationFailed err)
      | None \<Rightarrow>
        (case input of
           Some inp \<Rightarrow> of_option (do {
             qh \<leftarrow> go_div (Height inp - KernelSize config) (PoolStride config);
             qw \<leftarrow> go_div (Width inp - KernelSize config) (PoolStride config);
             let outHeight = qh + 1;
             let outWidth = qw + 1;
             output \<leftarrow> NewFeatureMap outHeight outWidth (Channels inp);
             for_each [0..Channels inp - 1] (\<lambda>c.
               for_each [0..outHeight - 1] (\<lambda>i.
                 for_each [0..outWidth - 1] (\<lambda>j output. do {
                   let startH = i * PoolStride config;
                   let endH = startH + KernelSize config;
                   let startW = j * PoolStride config;
                   let endW = startW + KernelSize config;
                   value \<leftarrow> poolWindow inp c startH endH startW endW (PoolType config);
                   SetUnsafe output c i j value
                 }))) output
           })
         | None \<Rightarrow> Panicked RuntimeError))"

text \<open>
  \<^verbatim>\<open>StochasticPooling\<close>.  The window loop collects the positive values and their sum;
  the probabilities are computed and not used; the value stored is \<^verbatim>\<open>values[0]\<close>.
\<close>

definition StochasticPooling :: "real FeatureMap \<Rightarrow> int \<Rightarrow> int \<Rightarrow> real FeatureMap outcome" where
  "StochasticPooling input kernelSize stride =
     of_option (do {
       qh \<leftarrow> go_div (Height input - kernelSize) stride;
       qw \<leftarrow> go_div (Width input - kernelSize) stride;
       let outHeight = qh + 1;
       let outWidth = qw + 1;
       output \<leftarrow> NewFeatureMap outHeight outWidth (Channels input);
       for_each [0..Channels input - 1] (\<lambda>c.
         for_each [0..outHeight - 1] (\<lambda>i.
           for_each [0..outWidth - 1] (\<lambda>j output. do {
             let startH = i * stride;
             let endH = startH + kernelSize;
             let startW = j * stride;
             let endW = startW + kernelSize;
             (values, sum) \<leftarrow> for_each [startH..endH - 1] (\<lambda>h.
               for_each [startW..endW - 1] (\<lambda>w (values, sum). do {
                 val \<leftarrow> GetUnsafe input c h w;
                 Some (if val > 0 then (values @ [val], sum + val) else (values, sum))
               })) ([], 0);
             if length values = 0 \<or> sum = 0 then SetUnsafe output c i j 0
             else do {
               let probabilities = map (\<lambda>val. val / sum) values;
               selectedValue \<leftarrow> slice_get values 0;
               SetUnsafe output c i j selectedValue
             }
           }))) output
     })"

section \<open>Batch normalization (internal/ops/normalization.go)\<close>

text \<open>The fields \<^verbatim>\<open>Mean\<close> and \<^verbatim>\<open>Variance\<close> are \<open>BNMean\<close> and \<open>BNVariance\<close> here.\<close>

record BatchNormParams =
  BNMean :: "real list"
  BNVariance :: "real list"
  Scale :: "real list"
  Shift :: "real list"
  Epsilon :: real

definition BatchNormalize :: "real FeatureMap \<Rightarrow> BatchNormParams \<Rightarrow> real FeatureMap outcome" where
  "BatchNormalize fm params =
     (if int (length (BNMean params)) \<noteq> Channels fm then Panicked BatchNormMismatch
      else of_option (do {
        result \<leftarrow> Clone fm;
        for_each [0..Channels fm - 1] (\<lambda>c result. do {
          mean \<leftarrow> slice_get (BNMean params) c;
          variance \<leftarrow> slice_get (BNVariance params) c;
          scale \<leftarrow> slice_get (Scale params) c;
          shift \<leftarrow> slice_get (Shift params) c;
          let stdDev = sqrt (variance + Epsilon params);
          for_each [0..Height fm - 1] (\<lambda>h.
            for_each [0..Width fm - 1] (\<lambda>w result. do {
              val \<leftarrow> GetUnsafe fm c h w;
              let normalized = (val - mean) / stdDev;
              let transformed = scale * normalized + shift;
              let transformed = (if transformed < 0 then 0 else transformed);
              SetUnsafe result c h w transformed
            })) result
        }) result
      }))"

definition BatchNormalizeInPlace :: "real FeatureMap \<Rightarrow> BatchNormParams \<Rightarrow> real FeatureMap outcome" where
  "BatchNormalizeInPlace fm params =
     (if int (length (BNMean params)) \<noteq> Channels fm then Panicked BatchNormMismatch
      else of_option (
        for_each [0..Channels fm - 1] (\<lambda>c fm. do {
          mean \<leftarrow> slice_get (BNMean params) c;
          variance \<leftarrow> slice_get (BNVariance params) c;
          scale \<leftarrow> slice_get (Scale params) c;
          shift \<leftarrow> slice_get (Shift params) c;
          let stdDev = sqrt (variance + Epsilon params);
          for_each [0..Height fm - 1] (\<lambda>h.
            for_each [0..Width fm - 1] (\<lambda>w fm. do {
              val \<leftarrow> GetUnsafe fm c h w;
              let normalized = (val - mean) / stdDev;
              let transformed = scale * normalized + shift;
              let transformed = (if transformed < 0 then 0 else transformed);
              SetUnsafe fm c h w transformed
            })) fm
        }) fm))"

section \<open>Statistics primitives (internal/ops/statistics.go, internal/tensor/utils.go)\<close>

text \<open>
  \<^verbatim>\<open>for i, val := range slice[1:] { if val > maxVal { maxVal = val; maxIdx = i + 1 } }\<close>
  The loop state is the range index \<open>i\<close>, \<open>maxIdx\<close> and \<open>maxVal\<close>.
\<close>

fun argmax_loop :: "real list \<Rightarrow> int \<Rightarrow> int \<Rightarrow> real \<Rightarrow> int" where
  "argmax_loop [] i maxIdx maxVal = maxIdx"
| "argmax_loop (val # rest) i maxIdx maxVal =
     (if val > maxVal then argmax_loop rest (i + 1) (i + 1) val
      else argmax_loop rest (i + 1) maxIdx maxVal)"

text \<open>\<^verbatim>\<open>ops.Argmax\<close>.\<close>

definition Argmax :: "real list \<Rightarrow> int" where
  "Argmax slice = (case slice of [] \<Rightarrow> - 1 | x # rest \<Rightarrow> argmax_loop rest 0 0 x)"

text \<open>\<^verbatim>\<open>tensor.Argmax\<close>: the same text in the other package.\<close>

definition tensor_Argmax :: "real list \<Rightarrow> int" where
  "tensor_Argmax slice = (case slice of [] \<Rightarrow> - 1 | x # rest \<Rightarrow> argmax_loop rest 0 0 x)"

section \<open>Labels (internal/data/manager.go)\<close>

text \<open>\<^verbatim>\<open>for i, val := range oneHot { if val == 1 { return i } }; return -1\<close>\<close>

fun onehot_loop :: "int list \<Rightarrow> int \<Rightarrow> int" where
  "onehot_loop [] i = - 1"
| "onehot_loop (val # rest) i = (if val = 1 then i else onehot_loop rest (i + 1))"

definition ConvertOneHotToClassIndex :: "int list \<Rightarrow> int" where
  "ConvertOneHotToClassIndex oneHot = onehot_loop oneHot 0"

text \<open>The result \<open>None\<close> is the nil slice returned for a class index out of range.\<close>

definition ConvertClassIndexToOneHot :: "int \<Rightarrow> int \<Rightarrow> int list option" where
  "ConvertClassIndexToOneHot classIndex numClasses =
     (if classIndex < 0 \<or> classIndex \<ge> numClasses then None
      else Some ((replicate (nat numClasses) 0)[nat classIndex := 1]))"

text \<open>A valid one-hot vector: every entry is 0 or 1 and exactly one entry is 1.\<close>

definition valid_one_hot :: "int list \<Rightarrow> bool" where
  "valid_one_hot v \<longleftrightarrow> list_all (\<lambda>x. x = 0 \<or> x = 1) v \<and> length (filter (\<lambda>x. x = 1) v) = 1"

section \<open>Notions used in the statements and proofs\<close>

definition same_shape :: "int \<Rightarrow> int \<Rightarrow> int \<Rightarrow> nat \<Rightarrow> 'a FeatureMap \<Rightarrow> bool" where
  "same_shape H W C L fm \<longleftrightarrow> Height fm = H \<and> Width fm = W \<and> Channels fm = C \<and> length (Data fm) = L"

definition flat :: "int \<Rightarrow> int \<Rightarrow> int \<times> int \<times> int \<Rightarrow> nat" where
  "flat H W p = nat (fst p * H * W + fst (snd p) * W + snd (snd p))"

definition box :: "int \<Rightarrow> int \<Rightarrow> int \<Rightarrow> (int \<times> int \<times> int) list" where
  "box C H W = List.product [0..C - 1] (List.product [0..H - 1] [0..W - 1])"

definition put :: "int \<Rightarrow> int \<Rightarrow> (int \<times> int \<times> int \<Rightarrow> 'a) \<Rightarrow> int \<times> int \<times> int \<Rightarrow> 'a list \<Rightarrow> 'a list" where
  "put H W v p d = d[flat H W p := v p]"

definition padded_at :: "('a::zero) FeatureMap \<Rightarrow> int \<Rightarrow> int \<Rightarrow> int \<Rightarrow> int \<Rightarrow> 'a" where
  "padded_at input padding c h w =
     (if padding \<le> h \<and> h < Height input + padding \<and> padding \<le> w \<and> w < Width input + padding
      then Data input ! nat (c * Height input * Width input + (h - padding) * Width input + (w - padding))
      else 0)"

text \<open>The sum over the receptive field, as the loops of \<^verbatim>\<open>convolveFilter\<close> and of
  \<^verbatim>\<open>processTile\<close> compute it, and its value when no read fails: the products are
  added in the order of the loops, starting from 0.\<close>

definition conv_sum ::
  "('a::{zero,plus,times}) FeatureMap \<Rightarrow> 'a Kernel \<Rightarrow> Conv2DConfig \<Rightarrow> int \<Rightarrow> int \<Rightarrow> int \<Rightarrow> 'a option" where
  "conv_sum input kern config f i j =
     for_each [0..KChannels kern - 1] (\<lambda>c.
       for_each [0..Size kern - 1] (\<lambda>m.
         for_each [0..Size kern - 1] (\<lambda>n sum. do {
           let inputH = i * Stride config + m;
           let inputW = j * Stride config + n;
           inputVal \<leftarrow> GetUnsafe input c inputH inputW;
           kernelWeight \<leftarrow> GetWeightUnsafe kern f c m n;
           Some (sum + inputVal * kernelWeight)
         }))) 0"

definition elem_at :: "'a FeatureMap \<Rightarrow> int \<Rightarrow> int \<Rightarrow> int \<Rightarrow> 'a" where
  "elem_at fm c h w = Data fm ! nat (c * Height fm * Width fm + h * Width fm + w)"

definition weight_at :: "'a Kernel \<Rightarrow> int \<Rightarrow> int \<Rightarrow> int \<Rightarrow> int \<Rightarrow> 'a" where
  "weight_at k f c h w =
     Weights k ! nat (f * KChannels k * Size k * Size k + c * Size k * Size k + h * Size k + w)"

definition conv_acc ::
  "('a::{zero,plus,times}) FeatureMap \<Rightarrow> 'a Kernel \<Rightarrow> Conv2DConfig \<Rightarrow> int \<Rightarrow> int \<Rightarrow> int \<Rightarrow> 'a" where
  "conv_acc input kern config f i j =
     fold (\<lambda>c. fold (\<lambda>m. fold (\<lambda>n sum.
             sum + elem_at input c (i * Stride config + m) (j * Stride config + n)
                   * weight_at kern f c m n)
           [0..Size kern - 1]) [0..Size kern - 1]) [0..KChannels kern - 1] 0"

definition conv_value ::
  "('a::{zero,plus,times}) FeatureMap \<Rightarrow> 'a Kernel \<Rightarrow> 'a list \<Rightarrow> Conv2DConfig \<Rightarrow> int \<times> int \<times> int \<Rightarrow> 'a" where
  "conv_value input kern bias config p =
     conv_acc input kern config (fst p) (fst (snd p)) (snd (snd p)) + bias ! nat (fst p)"

text \<open>The inputs on which the convolution is defined: the invariants of the data
  model and the conditions of \<^verbatim>\<open>validateConv2DInputs\<close>.\<close>

definition conv_ready ::
  "'a FeatureMap \<Rightarrow> 'a Kernel \<Rightarrow> 'a list \<Rightarrow> Conv2DConfig \<Rightarrow> bool" where
  "conv_ready input kern bias config \<longleftrightarrow>
     wf_FeatureMap input \<and> wf_Kernel kern
     \<and> validateConv2DInputs (Some input) (Some kern) bias config = None"

definition out_dim :: "int \<Rightarrow> 'a Kernel \<Rightarrow> Conv2DConfig \<Rightarrow> int" where
  "out_dim n kern config = (n + 2 * Padding config - Size kern) div Stride config + 1"

definition padded_input :: "('a::zero) FeatureMap \<Rightarrow> Conv2DConfig \<Rightarrow> 'a FeatureMap" where
  "padded_input input config =
     (if Padding config > 0 then the (PadFeatureMap input (Padding config)) else input)"

definition conv_out0 :: "('a::zero) FeatureMap \<Rightarrow> 'a Kernel \<Rightarrow> Conv2DConfig \<Rightarrow> 'a FeatureMap" where
  "conv_out0 input kern config =
     \<lparr>Height = out_dim (Height input) kern config, Width = out_dim (Width input) kern config,
      Channels = Filters kern,
      Data = replicate (nat (out_dim (Height input) kern config
                             * out_dim (Width input) kern config * Filters kern)) 0\<rparr>"

text \<open>The output that all three strategies are shown to produce.\<close>

definition conv_result ::
  "('a::{zero,plus,times}) FeatureMap \<Rightarrow> 'a Kernel \<Rightarrow> 'a list \<Rightarrow> Conv2DConfig \<Rightarrow> 'a FeatureMap" where
  "conv_result input kern bias config =
     (conv_out0 input kern config)\<lparr>Data :=
        fold (put (out_dim (Height input) kern config) (out_dim (Width input) kern config)
                (conv_value (padded_input input config) kern bias config))
          (box (Filters kern) (out_dim (Height input) kern config) (out_dim (Width input) kern config))
          (Data (conv_out0 input kern config))\<rparr>"

text \<open>The values that the counter of \<^verbatim>\<open>for i := start; i < limit; i += step\<close> takes
  when the step is positive.\<close>

function steps :: "int \<Rightarrow> int \<Rightarrow> int \<Rightarrow> int list" where
  "steps start limit step =
     (if start < limit \<and> 0 < step then start # steps (start + step) limit step else [])"
  by pat_completeness auto
termination
  by (relation "measure (\<lambda>(start, limit, step). nat (limit - start))") auto

declare steps.simps [simp del]

text \<open>Equivalence of two feature maps as the tests compare them: the same
  dimensions and every pair of elements at most \<open>tol\<close> apart.\<close>

definition approx_equal :: "real \<Rightarrow> real FeatureMap \<Rightarrow> real FeatureMap \<Rightarrow> bool" where
  "approx_equal tol a b \<longleftrightarrow>
     Height a = Height b \<and> Width a = Width b \<and> Channels a = Channels b
     \<and> list_all2 (\<lambda>x y. \<bar>x - y\<bar> \<le> tol) (Data a) (Data b)"

text \<open>The same notions for the depthwise convolution: the sum over the window of
  channel \<open>c\<close> with the weights at \<open>(c, c, m, n)\<close>.\<close>

definition depthwise_acc ::
  "('a::{zero,plus,times}) FeatureMap \<Rightarrow> 'a Kernel \<Rightarrow> Conv2DConfig \<Rightarrow> int \<Rightarrow> int \<Rightarrow> int \<Rightarrow> 'a" where
  "depthwise_acc input kern config c i j =
     fold (\<lambda>m. fold (\<lambda>n sum.
             sum + elem_at input c (i * Stride config + m) (j * Stride config + n)
                   * weight_at kern c c m n)
           [0..Size kern - 1]) [0..Size kern - 1] 0"

definition depthwise_value ::
  "('a::{zero,plus,times}) FeatureMap \<Rightarrow> 'a Kernel \<Rightarrow> 'a list \<Rightarrow> Conv2DConfig \<Rightarrow> int \<times> int \<times> int \<Rightarrow> 'a" where
  "depthwise_value input kern bias config p =
     depthwise_acc input kern config (fst p) (fst (snd p)) (snd (snd p)) + bias ! nat (fst p)"

definition depthwise_result ::
  "('a::{zero,plus,times}) FeatureMap \<Rightarrow> 'a Kernel \<Rightarrow> 'a list \<Rightarrow> Conv2DConfig \<Rightarrow> 'a FeatureMap" where
  "depthwise_result input kern bias config =
     (conv_out0 input kern config)\<lparr>Data :=
        fold (put (out_dim (Height input) kern config) (out_dim (Width input) kern config)
                (depthwise_value (padded_input input config) kern bias config))
          (box (Filters kern) (out_dim (Height input) kern config) (out_dim (Width input) kern config))
          (Data (conv_out0 input kern config))\<rparr>"

text \<open>Element \<open>(c, i, j)\<close> of the depthwise convolution as a formula: it reads the
  input only in channel \<open>c\<close> and the kernel only at \<open>(c, c, m, n)\<close>.\<close>

definition depthwise_at ::
  "('a::comm_semiring_0) FeatureMap \<Rightarrow> 'a Kernel \<Rightarrow> 'a list \<Rightarrow> Conv2DConfig \<Rightarrow> int \<Rightarrow> int \<Rightarrow> int \<Rightarrow> 'a" where
  "depthwise_at input kern bias config c i j =
     bias ! nat c
     + (\<Sum>m = 0..<Size kern. \<Sum>n = 0..<Size kern.
          padded_at input (Padding config) c (i * Stride config + m) (j * Stride config + n)
          * weight_at kern c c m n)"

text \<open>What the loop body of the batch normalization stores for an element \<open>x\<close> of
  channel \<open>c\<close>.\<close>

definition bn_value :: "BatchNormParams \<Rightarrow> int \<Rightarrow> real \<Rightarrow> real" where
  "bn_value params c x =
     (let stdDev = sqrt (BNVariance params ! nat c + Epsilon params);
          normalized = (x - BNMean params ! nat c) / stdDev;
          transformed = Scale params ! nat c * normalized + Shift params ! nat c
      in if transformed < 0 then 0 else transformed)"

text \<open>The values of the pooling window of channel \<open>c\<close> that starts at
  \<open>(startH, startW)\<close>, rows in order and within a row the columns in order, and the
  first positive value of a list (0 when there is none).\<close>

definition window_values :: "real FeatureMap \<Rightarrow> int \<Rightarrow> int \<Rightarrow> int \<Rightarrow> int \<Rightarrow> real list" where
  "window_values input c startH startW kernelSize =
     map (\<lambda>p. elem_at input c (fst p) (snd p))
       (List.product [startH..startH + kernelSize - 1] [startW..startW + kernelSize - 1])"

definition first_positive :: "real list \<Rightarrow> real" where
  "first_positive vs = (case filter (\<lambda>v. v > 0) vs of [] \<Rightarrow> 0 | v # _ \<Rightarrow> v)"

text \<open>The window loop of \<^verbatim>\<open>StochasticPooling\<close> at output position \<open>(c, i, j)\<close>.\<close>

definition stochastic_window ::
  "real FeatureMap \<Rightarrow> int \<Rightarrow> int \<Rightarrow> int \<times> int \<times> int \<Rightarrow> (real list \<times> real) option" where
  "stochastic_window input kernelSize stride p =
     for_each [fst (snd p) * stride..fst (snd p) * stride + kernelSize - 1] (\<lambda>h.
       for_each [snd (snd p) * stride..snd (snd p) * stride + kernelSize - 1] (\<lambda>w (values, sum). do {
         val \<leftarrow> GetUnsafe input (fst p) h w;
         Some (if val > 0 then (values @ [val], sum + val) else (values, sum))
       })) ([], 0)"

definition stochastic_selected :: "real list \<times> real \<Rightarrow> real" where
  "stochastic_selected vs = (if length (fst vs) = 0 \<or> snd vs = 0 then 0 else fst vs ! 0)"

section \<open>Loops and flat indices\<close>

lemma for_each_append:
  "for_each (xs @ ys) body s = Option.bind (for_each xs body s) (for_each ys body)"
proof (induction xs arbitrary: s)
  case Nil
  then show ?case by simp
next
  case (Cons x xs)
  then show ?case by (cases "body x s") simp_all
qed

lemma for_each_cong:
  assumes "\<And>x s. x \<in> set xs \<Longrightarrow> body x s = body' x s"
  shows "for_each xs body s = for_each xs body' s"
  using assms
proof (induction xs arbitrary: s)
  case Nil
  then show ?case by simp
next
  case (Cons x xs)
  have "for_each xs body = for_each xs body'"
    using Cons by (intro ext) simp
  then show ?case using Cons.prems by simp
qed

lemma for_each_map: "for_each (map f xs) body = for_each xs (\<lambda>x. body (f x))"
proof (induction xs)
  case Nil
  show ?case by (rule ext) simp
next
  case (Cons x xs)
  show ?case by (rule ext) (simp add: Cons)
qed

lemma for_each_concat:
  "for_each (concat xss) body s = for_each xss (\<lambda>xs. for_each xs body) s"
proof (induction xss arbitrary: s)
  case Nil
  then show ?case by simp
next
  case (Cons xs xss)
  have "for_each (concat xss) body = for_each xss (\<lambda>xs. for_each xs body)"
    using Cons by (intro ext) simp
  then show ?case by (simp add: for_each_append)
qed

lemma for_each_nested:
  "for_each xs (\<lambda>x. for_each (ys x) (b x)) s
   = for_each (concat (map (\<lambda>x. map (Pair x) (ys x)) xs)) (\<lambda>p. b (fst p) (snd p)) s"
  by (simp add: for_each_concat for_each_map)

lemma fold_update_length:
  "length (fold (\<lambda>p d. d[ix p := v p]) ps d) = length d"
  by (induction ps arbitrary: d) simp_all

lemma fold_update_other:
  "k \<notin> ix ` set ps \<Longrightarrow> fold (\<lambda>p d. d[ix p := v p]) ps d ! k = d ! k"
  by (induction ps arbitrary: d) auto

lemma fold_update_hit:
  assumes "inj_on ix (set ps)" and "p \<in> set ps" and "ix p < length d"
  shows "fold (\<lambda>p d. d[ix p := v p]) ps d ! ix p = v p"
  using assms
proof (induction ps arbitrary: p rule: rev_induct)
  case Nil
  then show ?case by simp
next
  case (snoc q ps)
  have inj: "inj_on ix (set ps)"
    using snoc.prems(1) by (auto simp: inj_on_def)
  show ?case
  proof (cases "p = q")
    case True
    then show ?thesis using snoc.prems(3) by (simp add: fold_update_length)
  next
    case False
    then have mem: "p \<in> set ps" using snoc.prems(2) by auto
    have ne: "ix p \<noteq> ix q"
      using snoc.prems(1,2) False by (auto simp: inj_on_def)
    have "fold (\<lambda>p d. d[ix p := v p]) ps d ! ix p = v p"
      by (rule snoc.IH[OF inj mem snoc.prems(3)])
    then show ?thesis using ne by simp
  qed
qed

lemma fold_update_set_eq:
  assumes inj: "inj_on ix (set ps)" and eq: "set ps = set qs"
  shows "fold (\<lambda>p d. d[ix p := v p]) ps d = fold (\<lambda>p d. d[ix p := v p]) qs d"
proof (rule nth_equalityI)
  show "length (fold (\<lambda>p d. d[ix p := v p]) ps d) = length (fold (\<lambda>p d. d[ix p := v p]) qs d)"
    by (simp add: fold_update_length)
next
  fix k assume "k < length (fold (\<lambda>p d. d[ix p := v p]) ps d)"
  then have k: "k < length d" by (simp add: fold_update_length)
  show "fold (\<lambda>p d. d[ix p := v p]) ps d ! k = fold (\<lambda>p d. d[ix p := v p]) qs d ! k"
  proof (cases "k \<in> ix ` set ps")
    case True
    then obtain p where p: "p \<in> set ps" "k = ix p" by auto
    have q: "p \<in> set qs" using p(1) eq by simp
    have inj': "inj_on ix (set qs)" using inj eq by simp
    have kp: "ix p < length d" using k p(2) by simp
    have "fold (\<lambda>p d. d[ix p := v p]) ps d ! ix p = v p"
      by (rule fold_update_hit[OF inj p(1) kp])
    moreover have "fold (\<lambda>p d. d[ix p := v p]) qs d ! ix p = v p"
      by (rule fold_update_hit[OF inj' q kp])
    ultimately show ?thesis unfolding p(2) by simp
  next
    case False
    then have "k \<notin> ix ` set qs" using eq by simp
    with False show ?thesis by (simp add: fold_update_other)
  qed
qed

lemma for_each_fold_if:
  assumes "\<And>x s. x \<in> set xs \<Longrightarrow> I s \<Longrightarrow> body x s = (if ok x then Some (g x s) else None)"
    and "\<And>x s. x \<in> set xs \<Longrightarrow> I s \<Longrightarrow> ok x \<Longrightarrow> I (g x s)"
    and "I s"
  shows "for_each xs body s = (if \<forall>x\<in>set xs. ok x then Some (fold g xs s) else None)"
  using assms
proof (induction xs arbitrary: s)
  case Nil
  then show ?case by simp
next
  case (Cons x xs)
  show ?case
  proof (cases "ok x")
    case True
    have st: "body x s = Some (g x s)" "I (g x s)"
      using Cons.prems(1)[of x s] Cons.prems(2)[of x s] Cons.prems(3) True by simp_all
    have "for_each xs body (g x s)
          = (if \<forall>x\<in>set xs. ok x then Some (fold g xs (g x s)) else None)"
      using Cons.prems(1,2) st(2) by (intro Cons.IH) simp_all
    then show ?thesis using st(1) True by simp
  next
    case False
    have "body x s = None" using Cons.prems(1)[of x s] Cons.prems(3) False by simp
    then show ?thesis using False by simp
  qed
qed

lemma for_each_pure:
  assumes "\<And>x s. x \<in> set xs \<Longrightarrow> body x s = Some (g x s)"
  shows "for_each xs body s = Some (fold g xs s)"
  using for_each_fold_if[where I = "\<lambda>_. True" and ok = "\<lambda>_. True" and body = body and g = g
      and xs = xs and s = s] assms
  by simp

lemma fold_Data_update:
  fixes fm :: "'a FeatureMap" and u :: "'p \<Rightarrow> 'a list \<Rightarrow> 'a list"
  shows "fold (\<lambda>p fm. fm\<lparr>Data := u p (Data fm)\<rparr>) ps fm
   = fm\<lparr>Data := fold u ps (Data fm)\<rparr>"
  by (induction ps arbitrary: fm) simp_all

lemma fold_product:
  "fold (\<lambda>x. fold (h x) ys) xs s = fold (\<lambda>p. h (fst p) (snd p)) (List.product xs ys) s"
  by (induction xs arbitrary: s) (simp_all add: fold_map comp_def)

lemma fold_preserves_length:
  assumes "\<And>x d. x \<in> set xs \<Longrightarrow> length d = L \<Longrightarrow> length (u x d) = L" and "length d = L"
  shows "length (fold u xs d) = L"
  using assms by (induction xs arbitrary: d) simp_all

lemma fold_preserves_shape:
  fixes fm :: "'a FeatureMap"
  assumes "\<And>x d. x \<in> set xs \<Longrightarrow> length d = L \<Longrightarrow> length (u x d) = L"
    and "same_shape H W C L fm"
  shows "same_shape H W C L (fm\<lparr>Data := fold u xs (Data fm)\<rparr>)"
  using assms fold_preserves_length[of xs L u "Data fm"] by (simp add: same_shape_def)

lemma for_each_Data_if:
  fixes out :: "'a FeatureMap"
  assumes body: "\<And>p fm. p \<in> set ps \<Longrightarrow> same_shape H W C L fm \<Longrightarrow>
             body p fm = (if ok p then Some (fm\<lparr>Data := u p (Data fm)\<rparr>) else None)"
    and len: "\<And>p d. p \<in> set ps \<Longrightarrow> length d = L \<Longrightarrow> length (u p d) = L"
    and shape: "same_shape H W C L out"
  shows "for_each ps body out
         = (if \<forall>p\<in>set ps. ok p then Some (out\<lparr>Data := fold u ps (Data out)\<rparr>) else None)"
proof -
  have "for_each ps body out
        = (if \<forall>p\<in>set ps. ok p then Some (fold (\<lambda>p fm. fm\<lparr>Data := u p (Data fm)\<rparr>) ps out) else None)"
  proof (rule for_each_fold_if[where I = "same_shape H W C L"])
    show "same_shape H W C L out" by (rule shape)
  next
    fix p and fm :: "'a FeatureMap"
    assume p: "p \<in> set ps" and sh: "same_shape H W C L fm"
    show "body p fm = (if ok p then Some (fm\<lparr>Data := u p (Data fm)\<rparr>) else None)"
      by (rule body[OF p sh])
    have "length (u p (Data fm)) = L" using len[OF p] sh by (simp add: same_shape_def)
    then show "same_shape H W C L (fm\<lparr>Data := u p (Data fm)\<rparr>)"
      using sh by (simp add: same_shape_def)
  qed
  then show ?thesis by (simp add: fold_Data_update)
qed

lemma for_each3_Data_if:
  fixes out :: "'a FeatureMap"
  assumes elem: "\<And>a b c fm. a \<in> set as \<Longrightarrow> b \<in> set bs \<Longrightarrow> c \<in> set cs \<Longrightarrow>
             same_shape H W C L fm \<Longrightarrow>
             body a b c fm = (if ok (a, b, c) then Some (fm\<lparr>Data := u (a, b, c) (Data fm)\<rparr>) else None)"
    and len: "\<And>p d. p \<in> set (List.product as (List.product bs cs)) \<Longrightarrow> length d = L \<Longrightarrow>
             length (u p d) = L"
    and shape: "same_shape H W C L out"
  shows "for_each as (\<lambda>a. for_each bs (\<lambda>b. for_each cs (body a b))) out
         = (if \<forall>p\<in>set (List.product as (List.product bs cs)). ok p
            then Some (out\<lparr>Data := fold u (List.product as (List.product bs cs)) (Data out)\<rparr>)
            else None)"
proof -
  have lenc: "length (u (a, b, c) d) = L"
    if "a \<in> set as" "b \<in> set bs" "c \<in> set cs" "length d = L" for a b c d
    using len[of "(a, b, c)" d] that by simp
  have len_c: "length (fold (\<lambda>c. u (a, b, c)) cs d) = L"
    if "a \<in> set as" "b \<in> set bs" "length d = L" for a b d
    using that(3)
  proof (rule fold_preserves_length[where L = L, rotated])
    fix c and d' :: "'a list" assume "c \<in> set cs" "length d' = L"
    then show "length (u (a, b, c) d') = L" using lenc that(1,2) by blast
  qed
  have len_b: "length (fold (\<lambda>b. fold (\<lambda>c. u (a, b, c)) cs) bs d) = L"
    if "a \<in> set as" "length d = L" for a d
    using that(2)
  proof (rule fold_preserves_length[where L = L, rotated])
    fix b and d' :: "'a list" assume "b \<in> set bs" "length d' = L"
    then show "length (fold (\<lambda>c. u (a, b, c)) cs d') = L" using len_c that(1) by blast
  qed
  have lvl_c: "for_each cs (body a b) fm
               = (if \<forall>c\<in>set cs. ok (a, b, c)
                  then Some (fm\<lparr>Data := fold (\<lambda>c. u (a, b, c)) cs (Data fm)\<rparr>) else None)"
    if ab: "a \<in> set as" "b \<in> set bs" and sh: "same_shape H W C L fm"
    for a b and fm :: "'a FeatureMap"
  proof (rule for_each_Data_if[where H = H and W = W and C = C and L = L
        and ok = "\<lambda>c. ok (a, b, c)" and u = "\<lambda>c. u (a, b, c)"])
    show "same_shape H W C L fm" by (rule sh)
  next
    fix c and fm' :: "'a FeatureMap"
    assume "c \<in> set cs" "same_shape H W C L fm'"
    then show "body a b c fm'
      = (if ok (a, b, c) then Some (fm'\<lparr>Data := u (a, b, c) (Data fm')\<rparr>) else None)"
      using elem ab by blast
  next
    fix c and d :: "'a list" assume "c \<in> set cs" "length d = L"
    then show "length (u (a, b, c) d) = L" using lenc ab by blast
  qed
  have lvl_b: "for_each bs (\<lambda>b. for_each cs (body a b)) fm
               = (if \<forall>b\<in>set bs. \<forall>c\<in>set cs. ok (a, b, c)
                  then Some (fm\<lparr>Data := fold (\<lambda>b. fold (\<lambda>c. u (a, b, c)) cs) bs (Data fm)\<rparr>)
                  else None)"
    if a: "a \<in> set as" and sh: "same_shape H W C L fm" for a and fm :: "'a FeatureMap"
  proof (rule for_each_Data_if[where H = H and W = W and C = C and L = L
        and ok = "\<lambda>b. \<forall>c\<in>set cs. ok (a, b, c)" and u = "\<lambda>b. fold (\<lambda>c. u (a, b, c)) cs"])
    show "same_shape H W C L fm" by (rule sh)
  next
    fix b and fm' :: "'a FeatureMap"
    assume "b \<in> set bs" "same_shape H W C L fm'"
    then show "for_each cs (body a b) fm'
      = (if \<forall>c\<in>set cs. ok (a, b, c)
         then Some (fm'\<lparr>Data := fold (\<lambda>c. u (a, b, c)) cs (Data fm')\<rparr>) else None)"
      using lvl_c a by blast
  next
    fix b and d :: "'a list" assume "b \<in> set bs" "length d = L"
    then show "length (fold (\<lambda>c. u (a, b, c)) cs d) = L" using len_c a by blast
  qed
  have "for_each as (\<lambda>a. for_each bs (\<lambda>b. for_each cs (body a b))) out
        = (if \<forall>a\<in>set as. \<forall>b\<in>set bs. \<forall>c\<in>set cs. ok (a, b, c)
           then Some (out\<lparr>Data := fold (\<lambda>a. fold (\<lambda>b. fold (\<lambda>c. u (a, b, c)) cs) bs) as (Data out)\<rparr>)
           else None)"
  proof (rule for_each_Data_if[where H = H and W = W and C = C and L = L
        and ok = "\<lambda>a. \<forall>b\<in>set bs. \<forall>c\<in>set cs. ok (a, b, c)"
        and u = "\<lambda>a. fold (\<lambda>b. fold (\<lambda>c. u (a, b, c)) cs) bs"])
    show "same_shape H W C L out" by (rule shape)
  next
    fix a and fm' :: "'a FeatureMap"
    assume "a \<in> set as" "same_shape H W C L fm'"
    then show "for_each bs (\<lambda>b. for_each cs (body a b)) fm'
      = (if \<forall>b\<in>set bs. \<forall>c\<in>set cs. ok (a, b, c)
         then Some (fm'\<lparr>Data := fold (\<lambda>b. fold (\<lambda>c. u (a, b, c)) cs) bs (Data fm')\<rparr>)
         else None)"
      using lvl_b by blast
  next
    fix a and d :: "'a list" assume "a \<in> set as" "length d = L"
    then show "length (fold (\<lambda>b. fold (\<lambda>c. u (a, b, c)) cs) bs d) = L" using len_b by blast
  qed
  moreover have "fold (\<lambda>a. fold (\<lambda>b. fold (\<lambda>c. u (a, b, c)) cs) bs) as (Data out)
             = fold u (List.product as (List.product bs cs)) (Data out)"
  proof -
    have inner: "fold (\<lambda>b. fold (\<lambda>c. u (a, b, c)) cs) bs = fold (\<lambda>q. u (a, q)) (List.product bs cs)"
      for a
      using fold_product[of "\<lambda>b c. u (a, b, c)" cs bs] by (intro ext) simp
    have "fold (\<lambda>a. fold (\<lambda>q. u (a, q)) (List.product bs cs)) as (Data out)
          = fold (\<lambda>p. u (fst p, snd p)) (List.product as (List.product bs cs)) (Data out)"
      by (rule fold_product)
    then show ?thesis by (simp add: inner)
  qed
  moreover have "(\<forall>a\<in>set as. \<forall>b\<in>set bs. \<forall>c\<in>set cs. ok (a, b, c))
                 \<longleftrightarrow> (\<forall>p\<in>set (List.product as (List.product bs cs)). ok p)"
    by auto
  ultimately show ?thesis by (simp only:)
qed

lemma flat_index_bound:
  fixes c h w H W C :: int
  assumes "0 \<le> c" "c < C" "0 \<le> h" "h < H" "0 \<le> w" "w < W"
  shows "0 \<le> c * H * W + h * W + w" and "c * H * W + h * W + w < H * W * C"
proof -
  show "0 \<le> c * H * W + h * W + w" using assms by simp
  have "h * W + w < h * W + W" using assms by simp
  also have "\<dots> = (h + 1) * W" by (simp add: algebra_simps)
  also have "\<dots> \<le> H * W" using assms by (intro mult_right_mono) simp_all
  finally have hw: "h * W + w < H * W" .
  have HW: "0 \<le> H * W" using assms by simp
  have "c * H * W + h * W + w < c * (H * W) + H * W" using hw by (simp add: algebra_simps)
  also have "\<dots> = (c + 1) * (H * W)" by (simp add: algebra_simps)
  also have "\<dots> \<le> C * (H * W)" using assms HW by (intro mult_right_mono) simp_all
  finally show "c * H * W + h * W + w < H * W * C" by (simp add: algebra_simps)
qed

lemma divmod_unique_int:
  fixes q q' r r' b :: int
  assumes "q * b + r = q' * b + r'" "0 \<le> r" "r < b" "0 \<le> r'" "r' < b"
  shows "q = q' \<and> r = r'"
proof -
  have b: "0 < b" using assms by simp
  have 1: "(q * b + r) div b = q" using assms(2,3) b by simp
  have 2: "(q' * b + r') div b = q'" using assms(4,5) b by simp
  have "q = (q * b + r) div b" by (simp only: 1)
  also have "\<dots> = (q' * b + r') div b" by (simp only: assms(1))
  also have "\<dots> = q'" by (simp only: 2)
  finally have "q = q'" .
  then show ?thesis using assms(1) by simp
qed

lemma flat_index_inj:
  fixes c h w c' h' w' H W :: int
  assumes eq: "c * H * W + h * W + w = c' * H * W + h' * W + w'"
    and "0 \<le> h" "h < H" "0 \<le> w" "w < W" "0 \<le> h'" "h' < H" "0 \<le> w'" "w' < W"
  shows "c = c' \<and> h = h' \<and> w = w'"
proof -
  have b1: "0 \<le> h * W + w" "h * W + w < H * W"
    using flat_index_bound[of 0 1 h H w W] assms by simp_all
  have b2: "0 \<le> h' * W + w'" "h' * W + w' < H * W"
    using flat_index_bound[of 0 1 h' H w' W] assms by simp_all
  have "c * (H * W) + (h * W + w) = c' * (H * W) + (h' * W + w')"
    using eq by (simp add: algebra_simps)
  then have 1: "c = c' \<and> h * W + w = h' * W + w'"
    using b1 b2 by (intro divmod_unique_int) simp_all
  then have "h = h' \<and> w = w'"
    using assms by (intro divmod_unique_int) simp_all
  with 1 show ?thesis by simp
qed



lemma set_box:
  "p \<in> set (box C H W) \<longleftrightarrow>
   0 \<le> fst p \<and> fst p < C \<and> 0 \<le> fst (snd p) \<and> fst (snd p) < H \<and> 0 \<le> snd (snd p) \<and> snd (snd p) < W"
  by (cases p) (auto simp: box_def)

lemma flat_in_box:
  assumes "p \<in> set (box C H W)"
  shows "int (flat H W p) = fst p * H * W + fst (snd p) * W + snd (snd p)"
    and "flat H W p < nat (H * W * C)"
proof -
  from assms have r: "0 \<le> fst p" "fst p < C" "0 \<le> fst (snd p)" "fst (snd p) < H"
    "0 \<le> snd (snd p)" "snd (snd p) < W" by (simp_all add: set_box)
  note b = flat_index_bound[OF r]
  show "int (flat H W p) = fst p * H * W + fst (snd p) * W + snd (snd p)"
    using b(1) by (simp add: flat_def)
  show "flat H W p < nat (H * W * C)" using b by (simp add: flat_def)
qed

lemma flat_inj_on_box: "inj_on (flat H W) (set (box C H W))"
proof (rule inj_onI)
  fix p q assume p: "p \<in> set (box C H W)" and q: "q \<in> set (box C H W)"
    and eq: "flat H W p = flat H W q"
  have "fst p * H * W + fst (snd p) * W + snd (snd p) = fst q * H * W + fst (snd q) * W + snd (snd q)"
    using flat_in_box(1)[OF p] flat_in_box(1)[OF q] eq by simp
  then have "fst p = fst q \<and> fst (snd p) = fst (snd q) \<and> snd (snd p) = snd (snd q)"
    using p q by (intro flat_index_inj[where H = H and W = W]) (simp_all add: set_box)
  then show "p = q" by (simp add: prod_eq_iff)
qed

lemma put_length: "length (put H W v p d) = length d"
  by (simp add: put_def)

lemma fold_put_length: "length (fold (put H W v) ps d) = length d"
  by (induction ps arbitrary: d) (simp_all add: put_length)

lemma fold_put_eq: "fold (put H W v) ps d = fold (\<lambda>p d. d[flat H W p := v p]) ps d"
proof -
  have "put H W v = (\<lambda>p d. d[flat H W p := v p])" by (intro ext) (simp add: put_def)
  then show ?thesis by simp
qed

lemma fold_put_hit:
  assumes "set ps \<subseteq> set (box C H W)" "p \<in> set ps" "length d = nat (H * W * C)"
  shows "fold (put H W v) ps d ! flat H W p = v p"
proof -
  have inj: "inj_on (flat H W) (set ps)"
    using flat_inj_on_box[of H W C] assms(1) by (rule inj_on_subset)
  have lt: "flat H W p < length d" using flat_in_box(2)[of p C H W] assms by auto
  show ?thesis unfolding fold_put_eq by (rule fold_update_hit[OF inj assms(2) lt])
qed

lemma fold_put_other:
  assumes "set ps \<subseteq> set (box C H W)" "q \<in> set (box C H W)" "q \<notin> set ps"
  shows "fold (put H W v) ps d ! flat H W q = d ! flat H W q"
proof -
  have "flat H W q \<notin> flat H W ` set ps"
  proof
    assume "flat H W q \<in> flat H W ` set ps"
    then obtain p where p: "p \<in> set ps" "flat H W q = flat H W p" by auto
    then have "q = p" using flat_inj_on_box[of H W C] assms(1,2) by (auto simp: inj_on_def)
    then show False using p(1) assms(3) by simp
  qed
  then show ?thesis unfolding fold_put_eq by (rule fold_update_other)
qed

lemma fold_put_set_eq:
  assumes "set ps = set (box C H W)" "set qs = set (box C H W)"
  shows "fold (put H W v) ps d = fold (put H W v) qs d"
proof -
  have inj: "inj_on (flat H W) (set ps)" using flat_inj_on_box[of H W C] assms(1) by simp
  have eq: "set ps = set qs" using assms by simp
  show ?thesis unfolding fold_put_eq by (rule fold_update_set_eq[OF inj eq])
qed

lemma SetUnsafe_same_shape:
  fixes fm :: "'a FeatureMap"
  assumes "same_shape H W C L fm"
  shows "SetUnsafe fm c h w v
         = (if 0 \<le> c * H * W + h * W + w \<and> c * H * W + h * W + w < int L
            then Some (fm\<lparr>Data := (Data fm)[nat (c * H * W + h * W + w) := v]\<rparr>) else None)"
  using assms by (simp add: SetUnsafe_def slice_set_def same_shape_def)

lemma SetUnsafe_in_box:
  fixes fm :: "'a FeatureMap"
  assumes "same_shape H W C (nat (H * W * C)) fm" "(c, h, w) \<in> set (box C H W)"
  shows "SetUnsafe fm c h w x = Some (fm\<lparr>Data := put H W (\<lambda>_. x) (c, h, w) (Data fm)\<rparr>)"
proof -
  have r: "0 \<le> c" "c < C" "0 \<le> h" "h < H" "0 \<le> w" "w < W"
    using assms(2) by (simp_all add: set_box)
  note b = flat_index_bound[OF r]
  have "c * H * W + h * W + w < int (nat (H * W * C))" using b by simp
  then show ?thesis
    using b(1) by (simp add: SetUnsafe_same_shape[OF assms(1)] put_def flat_def)
qed

lemma GetUnsafe_Some:
  assumes "wf_FeatureMap fm" "0 \<le> c" "c < Channels fm" "0 \<le> h" "h < Height fm"
    "0 \<le> w" "w < Width fm"
  shows "GetUnsafe fm c h w = Some (Data fm ! nat (c * Height fm * Width fm + h * Width fm + w))"
proof -
  note b = flat_index_bound[OF assms(2-7)]
  show ?thesis using b assms(1) by (simp add: GetUnsafe_def slice_get_def wf_FeatureMap_def)
qed

lemma weight_index_bound:
  fixes f c m n F K S :: int
  assumes "0 \<le> f" "f < F" "0 \<le> c" "c < K" "0 \<le> m" "m < S" "0 \<le> n" "n < S"
  shows "0 \<le> f * K * S * S + c * S * S + m * S + n"
    and "f * K * S * S + c * S * S + m * S + n < S * S * K * F"
proof -
  note b = flat_index_bound[OF assms(3-8)]
  have KSS: "0 \<le> K * S * S" using assms by simp
  show "0 \<le> f * K * S * S + c * S * S + m * S + n"
    using b(1) assms(1) KSS by (simp add: add.assoc mult.assoc)
  have "f * K * S * S + c * S * S + m * S + n = f * (S * S * K) + (c * S * S + m * S + n)"
    by (simp add: algebra_simps)
  also have "\<dots> < f * (S * S * K) + S * S * K" using b(2) by simp
  also have "\<dots> = (f + 1) * (S * S * K)" by (simp add: algebra_simps)
  also have "\<dots> \<le> F * (S * S * K)"
    using assms(2) KSS by (intro mult_right_mono) (simp_all add: algebra_simps)
  finally show "f * K * S * S + c * S * S + m * S + n < S * S * K * F"
    by (simp add: algebra_simps)
qed

lemma GetWeightUnsafe_Some:
  assumes "wf_Kernel k" "0 \<le> f" "f < Filters k" "0 \<le> c" "c < KChannels k"
    "0 \<le> m" "m < Size k" "0 \<le> n" "n < Size k"
  shows "GetWeightUnsafe k f c m n
         = Some (Weights k ! nat (f * KChannels k * Size k * Size k + c * Size k * Size k + m * Size k + n))"
proof -
  note b = weight_index_bound[OF assms(2-9)]
  show ?thesis using b assms(1) by (simp add: GetWeightUnsafe_def slice_get_def wf_Kernel_def)
qed


lemma NewFeatureMap_Some:
  assumes "0 \<le> H * W * C"
  shows "NewFeatureMap H W C
         = Some \<lparr>Height = H, Width = W, Channels = C, Data = replicate (nat (H * W * C)) 0\<rparr>"
  using assms by (simp add: NewFeatureMap_def make_slice_def)

lemma PadFeatureMap_positive:
  fixes input :: "('a::zero) FeatureMap"
  assumes wf: "wf_FeatureMap input" and p: "0 < p"
  defines "PH \<equiv> Height input + 2 * p" and "PW \<equiv> Width input + 2 * p"
  shows "\<exists>pin. PadFeatureMap input p = Some pin
           \<and> Height pin = PH \<and> Width pin = PW \<and> Channels pin = Channels input
           \<and> wf_FeatureMap pin
           \<and> (\<forall>q\<in>set (box (Channels input) PH PW).
                 Data pin ! flat PH PW q = padded_at input p (fst q) (fst (snd q)) (snd (snd q)))"
proof -
  define H W C where "H = Height input" and "W = Width input" and "C = Channels input"
  have dims: "0 \<le> H" "0 \<le> W" "0 \<le> C" "int (length (Data input)) = H * W * C"
    using wf by (simp_all add: wf_FeatureMap_def H_def W_def C_def)
  have PHW: "PH = H + 2 * p" "PW = W + 2 * p" by (simp_all add: PH_def PW_def H_def W_def)
  have nn: "0 \<le> PH * PW * C" using dims p by (simp add: PHW)
  define L where "L = nat (PH * PW * C)"
  define pad0 :: "'a FeatureMap" where
    "pad0 = \<lparr>Height = PH, Width = PW, Channels = C, Data = replicate L 0\<rparr>"
  have new: "NewFeatureMap PH PW C = Some pad0"
    using NewFeatureMap_Some[OF nn] by (simp add: pad0_def L_def)
  have sh0: "same_shape PH PW C L pad0" by (simp add: same_shape_def pad0_def)
  define vin where "vin = (\<lambda>q :: int \<times> int \<times> int. Data input ! flat H W q)"
  define v' where "v' = (\<lambda>q :: int \<times> int \<times> int. vin (fst q, fst (snd q) - p, snd (snd q) - p))"
  define shift where "shift = (\<lambda>q :: int \<times> int \<times> int. (fst q, fst (snd q) + p, snd (snd q) + p))"
  have v'_shift: "v' (shift q) = vin q" for q by (simp add: v'_def shift_def)
  have shift_box: "shift q \<in> set (box C PH PW)" if "q \<in> set (box C H W)" for q
    using that p by (simp add: set_box shift_def PHW)
  let ?body = "\<lambda>c h w padded. Option.bind (GetUnsafe input c h w)
                  (\<lambda>value. SetUnsafe padded c (h + p) (w + p) value)"
  have loop: "for_each [0..C - 1] (\<lambda>c. for_each [0..H - 1] (\<lambda>h. for_each [0..W - 1] (?body c h))) pad0
      = (if \<forall>q\<in>set (List.product [0..C - 1] (List.product [0..H - 1] [0..W - 1])). True
         then Some (pad0\<lparr>Data := fold (\<lambda>q. put PH PW v' (shift q))
                       (List.product [0..C - 1] (List.product [0..H - 1] [0..W - 1])) (Data pad0)\<rparr>)
         else None)"
  proof (rule for_each3_Data_if[where H = PH and W = PW and C = C and L = L])
    show "same_shape PH PW C L pad0" by (rule sh0)
  next
    fix q :: "int \<times> int \<times> int" and d :: "'a list"
    assume "length d = L"
    then show "length (put PH PW v' (shift q) d) = L" by (simp add: put_length)
  next
    fix c h w and fm :: "'a FeatureMap"
    assume r: "c \<in> set [0..C - 1]" "h \<in> set [0..H - 1]" "w \<in> set [0..W - 1]"
      and sh: "same_shape PH PW C L fm"
    have g: "GetUnsafe input c h w = Some (vin (c, h, w))"
      using GetUnsafe_Some[OF wf, of c h w] r
      by (simp add: vin_def flat_def H_def W_def C_def)
    have inb: "(c, h + p, w + p) \<in> set (box C PH PW)"
      using shift_box[of "(c, h, w)"] r by (simp add: shift_def set_box)
    have "SetUnsafe fm c (h + p) (w + p) (vin (c, h, w))
          = Some (fm\<lparr>Data := put PH PW (\<lambda>_. vin (c, h, w)) (c, h + p, w + p) (Data fm)\<rparr>)"
      using sh inb unfolding L_def by (rule SetUnsafe_in_box)
    moreover have "put PH PW (\<lambda>_. vin (c, h, w)) (c, h + p, w + p) (Data fm)
                   = put PH PW v' (shift (c, h, w)) (Data fm)"
      by (simp add: put_def v'_def shift_def)
    ultimately show "?body c h w fm = (if True
       then Some (fm\<lparr>Data := put PH PW v' (shift (c, h, w)) (Data fm)\<rparr>) else None)"
      using g by simp
  qed
  define ps where "ps = map shift (box C H W)"
  define pin where "pin = pad0\<lparr>Data := fold (put PH PW v') ps (Data pad0)\<rparr>"
  have fm: "fold (\<lambda>q. put PH PW v' (shift q)) (box C H W) d = fold (put PH PW v') ps d" for d
    by (simp add: ps_def fold_map comp_def)
  have pad: "PadFeatureMap input p = Some pin"
    using p new loop fm
    by (simp add: PadFeatureMap_def PHW H_def W_def C_def Let_def box_def pin_def)
  have sub: "set ps \<subseteq> set (box C PH PW)" using shift_box by (auto simp: ps_def)
  have len: "length (Data pin) = L" by (simp add: pin_def fold_put_length pad0_def)
  have wfp: "wf_FeatureMap pin"
    using nn dims p len by (simp add: wf_FeatureMap_def pin_def pad0_def L_def PHW)
  have elems: "Data pin ! flat PH PW q = padded_at input p (fst q) (fst (snd q)) (snd (snd q))"
    if q: "q \<in> set (box C PH PW)" for q
  proof (cases "q \<in> set ps")
    case True
    then obtain r where r: "r \<in> set (box C H W)" "q = shift r" by (auto simp: ps_def)
    have "Data pin ! flat PH PW q = v' q"
      unfolding pin_def using sub True by (simp add: fold_put_hit[where C = C] pad0_def L_def)
    also have "\<dots> = vin r" using r(2) v'_shift by simp
    also have "\<dots> = padded_at input p (fst q) (fst (snd q)) (snd (snd q))"
      using r by (simp add: padded_at_def vin_def flat_def shift_def set_box H_def W_def)
    finally show ?thesis .
  next
    case False
    have out: "\<not> (p \<le> fst (snd q) \<and> fst (snd q) < H + p \<and> p \<le> snd (snd q) \<and> snd (snd q) < W + p)"
    proof
      assume a: "p \<le> fst (snd q) \<and> fst (snd q) < H + p \<and> p \<le> snd (snd q) \<and> snd (snd q) < W + p"
      define r where "r = (fst q, fst (snd q) - p, snd (snd q) - p)"
      have "r \<in> set (box C H W)" using a q by (simp add: r_def set_box)
      moreover have "q = shift r" by (simp add: r_def shift_def)
      ultimately show False using False by (auto simp: ps_def)
    qed
    have lt: "flat PH PW q < L" using flat_in_box(2)[OF q] by (simp add: L_def)
    have "Data pin ! flat PH PW q = Data pad0 ! flat PH PW q"
      unfolding pin_def using sub q False by (simp add: fold_put_other[where C = C])
    also have "\<dots> = 0" using lt by (simp add: pad0_def)
    also have "\<dots> = padded_at input p (fst q) (fst (snd q)) (snd (snd q))"
      using out unfolding H_def W_def padded_at_def by auto
    finally show ?thesis .
  qed
  show ?thesis
    using pad wfp elems by (intro exI[of _ pin]) (simp add: pin_def pad0_def C_def)
qed

lemma for_each2_Data_if:
  fixes out :: "'a FeatureMap"
  assumes elem: "\<And>b c fm. b \<in> set bs \<Longrightarrow> c \<in> set cs \<Longrightarrow> same_shape H W C L fm \<Longrightarrow>
             body b c fm = (if ok (b, c) then Some (fm\<lparr>Data := u (b, c) (Data fm)\<rparr>) else None)"
    and len: "\<And>p d. p \<in> set (List.product bs cs) \<Longrightarrow> length d = L \<Longrightarrow> length (u p d) = L"
    and shape: "same_shape H W C L out"
  shows "for_each bs (\<lambda>b. for_each cs (body b)) out
         = (if \<forall>p\<in>set (List.product bs cs). ok p
            then Some (out\<lparr>Data := fold u (List.product bs cs) (Data out)\<rparr>) else None)"
proof -
  have lenc: "length (u (b, c) d) = L" if "b \<in> set bs" "c \<in> set cs" "length d = L" for b c d
    using len[of "(b, c)" d] that by simp
  have len_c: "length (fold (\<lambda>c. u (b, c)) cs d) = L" if "b \<in> set bs" "length d = L" for b d
    using that(2)
  proof (rule fold_preserves_length[where L = L, rotated])
    fix c and d' :: "'a list" assume "c \<in> set cs" "length d' = L"
    then show "length (u (b, c) d') = L" using lenc that(1) by blast
  qed
  have lvl_c: "for_each cs (body b) fm
               = (if \<forall>c\<in>set cs. ok (b, c)
                  then Some (fm\<lparr>Data := fold (\<lambda>c. u (b, c)) cs (Data fm)\<rparr>) else None)"
    if b: "b \<in> set bs" and sh: "same_shape H W C L fm" for b and fm :: "'a FeatureMap"
  proof (rule for_each_Data_if[where H = H and W = W and C = C and L = L
        and ok = "\<lambda>c. ok (b, c)" and u = "\<lambda>c. u (b, c)"])
    show "same_shape H W C L fm" by (rule sh)
  next
    fix c and fm' :: "'a FeatureMap"
    assume "c \<in> set cs" "same_shape H W C L fm'"
    then show "body b c fm' = (if ok (b, c) then Some (fm'\<lparr>Data := u (b, c) (Data fm')\<rparr>) else None)"
      using elem b by blast
  next
    fix c and d :: "'a list" assume "c \<in> set cs" "length d = L"
    then show "length (u (b, c) d) = L" using lenc b by blast
  qed
  have A: "for_each bs (\<lambda>b. for_each cs (body b)) out
        = (if \<forall>b\<in>set bs. \<forall>c\<in>set cs. ok (b, c)
           then Some (out\<lparr>Data := fold (\<lambda>b. fold (\<lambda>c. u (b, c)) cs) bs (Data out)\<rparr>) else None)"
  proof (rule for_each_Data_if[where H = H and W = W and C = C and L = L
        and ok = "\<lambda>b. \<forall>c\<in>set cs. ok (b, c)" and u = "\<lambda>b. fold (\<lambda>c. u (b, c)) cs"])
    show "same_shape H W C L out" by (rule shape)
  next
    fix b and fm' :: "'a FeatureMap"
    assume "b \<in> set bs" "same_shape H W C L fm'"
    then show "for_each cs (body b) fm'
      = (if \<forall>c\<in>set cs. ok (b, c)
         then Some (fm'\<lparr>Data := fold (\<lambda>c. u (b, c)) cs (Data fm')\<rparr>) else None)"
      using lvl_c by blast
  next
    fix b and d :: "'a list" assume "b \<in> set bs" "length d = L"
    then show "length (fold (\<lambda>c. u (b, c)) cs d) = L" using len_c by blast
  qed
  have B: "fold (\<lambda>b. fold (\<lambda>c. u (b, c)) cs) bs (Data out) = fold u (List.product bs cs) (Data out)"
    using fold_product[of "\<lambda>b c. u (b, c)" cs bs "Data out"] by simp
  have C: "(\<forall>b\<in>set bs. \<forall>c\<in>set cs. ok (b, c)) \<longleftrightarrow> (\<forall>p\<in>set (List.product bs cs). ok p)"
    by auto
  show ?thesis using A B C by (simp only:)
qed

section \<open>Validation failures\<close>

lemma validateConv2DInputs_None_iff:
  "validateConv2DInputs input kern bias config = None \<longleftrightarrow>
     (\<exists>inp ker. input = Some inp \<and> kern = Some ker
        \<and> int (length bias) = Filters ker \<and> Channels inp = KChannels ker
        \<and> 0 < Stride config \<and> 0 \<le> Padding config
        \<and> Size ker \<le> Height inp + 2 * Padding config
        \<and> Size ker \<le> Width inp + 2 * Padding config)"
  by (auto simp: validateConv2DInputs_def Let_def split: option.splits)

lemma go_quot_nonneg: "0 \<le> a \<Longrightarrow> 0 < b \<Longrightarrow> go_quot a b = a div b"
  by (cases "a = 0") (simp_all add: go_quot_def)

lemma validatePoolingInputs_None_iff:
  "validatePoolingInputs input config = None \<longleftrightarrow>
     (\<exists>inp. input = Some inp \<and> 0 < KernelSize config \<and> 0 < PoolStride config
        \<and> KernelSize config \<le> Height inp \<and> KernelSize config \<le> Width inp)"
proof (cases input)
  case None
  then show ?thesis by (simp add: validatePoolingInputs_def)
next
  case (Some inp)
  have q: "0 \<le> go_quot (Height inp - KernelSize config) (PoolStride config)"
       "0 \<le> go_quot (Width inp - KernelSize config) (PoolStride config)"
    if "0 < PoolStride config" "KernelSize config \<le> Height inp" "KernelSize config \<le> Width inp"
    using that by (simp_all add: go_quot_nonneg pos_imp_zdiv_nonneg_iff)
  show ?thesis
    using Some q by (auto simp: validatePoolingInputs_def Let_def)
qed

text \<open>
  C4, as the code has it.  Every failure that the validators test (for the
  convolution: nil input or kernel, bias length different from the number of
  filters, input channels different from kernel channels, stride not positive,
  negative padding, padded input smaller than the kernel; for pooling: nil input,
  kernel size not positive, stride not positive, window larger than the input) is
  found by the validator as an error value, and \<^verbatim>\<open>Conv2D\<close> and \<^verbatim>\<open>Pooling2D\<close> then panic
  with that error before anything is computed: no value is returned to the caller.
\<close>

theorem validation_failure_panics:
  "(validateConv2DInputs input kern bias config \<noteq> None \<longleftrightarrow>
      (input = None \<or> kern = None
       \<or> (\<exists>inp ker. input = Some inp \<and> kern = Some ker
            \<and> (int (length bias) \<noteq> Filters ker \<or> Channels inp \<noteq> KChannels ker
                \<or> Stride config \<le> 0 \<or> Padding config < 0
                \<or> Height inp + 2 * Padding config < Size ker
                \<or> Width inp + 2 * Padding config < Size ker))))
   \<and> (\<forall>err. validateConv2DInputs input kern bias config = Some err \<longrightarrow>
          Conv2D input kern bias config = Panicked (Conv2DValidationFailed err))
   \<and> (validatePoolingInputs pinput pconfig \<noteq> None \<longleftrightarrow>
      (pinput = None
       \<or> (\<exists>inp. pinput = Some inp
            \<and> (KernelSize pconfig \<le> 0 \<or> PoolStride pconfig \<le> 0
                \<or> KernelSize pconfig > Height inp \<or> KernelSize pconfig > Width inp))))
   \<and> (\<forall>err. validatePoolingInputs pinput pconfig = Some err \<longrightarrow>
          Pooling2D pinput pconfig = Panicked (PoolingValidationFailed err))"
proof (intro conjI allI impI)
  show "validateConv2DInputs input kern bias config \<noteq> None \<longleftrightarrow>
      (input = None \<or> kern = None
       \<or> (\<exists>inp ker. input = Some inp \<and> kern = Some ker
            \<and> (int (length bias) \<noteq> Filters ker \<or> Channels inp \<noteq> KChannels ker
                \<or> Stride config \<le> 0 \<or> Padding config < 0
                \<or> Height inp + 2 * Padding config < Size ker
                \<or> Width inp + 2 * Padding config < Size ker)))"
    unfolding validateConv2DInputs_None_iff
    by (cases input; cases kern) auto
next
  fix err assume "validateConv2DInputs input kern bias config = Some err"
  then show "Conv2D input kern bias config = Panicked (Conv2DValidationFailed err)"
    by (simp add: Conv2D_def)
next
  show "validatePoolingInputs pinput pconfig \<noteq> None \<longleftrightarrow>
      (pinput = None
       \<or> (\<exists>inp. pinput = Some inp
            \<and> (KernelSize pconfig \<le> 0 \<or> PoolStride pconfig \<le> 0
                \<or> KernelSize pconfig > Height inp \<or> KernelSize pconfig > Width inp)))"
    unfolding validatePoolingInputs_None_iff
    by (cases pinput) auto
next
  fix err assume "validatePoolingInputs pinput pconfig = Some err"
  then show "Pooling2D pinput pconfig = Panicked (PoolingValidationFailed err)"
    by (simp add: Pooling2D_def)
qed

theorem validation_failure_panics_witness:
  "validateConv2DInputs
     (Some \<lparr>Height = 2, Width = 2, Channels = 1, Data = [1, 2, 3, 4 :: real]\<rparr>)
     (Some \<lparr>Size = 1, KChannels = 1, Filters = 2, Weights = [1, 1]\<rparr>) [0]
     \<lparr>Padding = 0, Stride = 1\<rparr> = Some (BiasLengthMismatch 1 2)
   \<and> Conv2D
     (Some \<lparr>Height = 2, Width = 2, Channels = 1, Data = [1, 2, 3, 4 :: real]\<rparr>)
     (Some \<lparr>Size = 1, KChannels = 1, Filters = 2, Weights = [1, 1]\<rparr>) [0]
     \<lparr>Padding = 0, Stride = 1\<rparr> = Panicked (Conv2DValidationFailed (BiasLengthMismatch 1 2))
   \<and> validatePoolingInputs
     (Some \<lparr>Height = 2, Width = 2, Channels = 1, Data = [1, 2, 3, 4 :: real]\<rparr>)
     \<lparr>KernelSize = 3, PoolStride = 1, PoolType = MaxPooling\<rparr> = Some (KernelLargerThanInput 3 2 2)
   \<and> Pooling2D
     (Some \<lparr>Height = 2, Width = 2, Channels = 1, Data = [1, 2, 3, 4 :: real]\<rparr>)
     \<lparr>KernelSize = 3, PoolStride = 1, PoolType = MaxPooling\<rparr>
       = Panicked (PoolingValidationFailed (KernelLargerThanInput 3 2 2))"
proof -
  have v: "validateConv2DInputs
     (Some \<lparr>Height = 2, Width = 2, Channels = 1, Data = [1, 2, 3, 4 :: real]\<rparr>)
     (Some \<lparr>Size = 1, KChannels = 1, Filters = 2, Weights = [1, 1]\<rparr>) [0]
     \<lparr>Padding = 0, Stride = 1\<rparr> = Some (BiasLengthMismatch 1 2)"
    by (simp add: validateConv2DInputs_def)
  have p: "validatePoolingInputs
     (Some \<lparr>Height = 2, Width = 2, Channels = 1, Data = [1, 2, 3, 4 :: real]\<rparr>)
     \<lparr>KernelSize = 3, PoolStride = 1, PoolType = MaxPooling\<rparr> = Some (KernelLargerThanInput 3 2 2)"
    by (simp add: validatePoolingInputs_def)
  show ?thesis
    using v p
      validation_failure_panics[of
        "Some \<lparr>Height = 2, Width = 2, Channels = 1, Data = [1, 2, 3, 4 :: real]\<rparr>"
        "Some \<lparr>Size = 1, KChannels = 1, Filters = 2, Weights = [1, 1]\<rparr>" "[0]"
        "\<lparr>Padding = 0, Stride = 1\<rparr>"
        "Some \<lparr>Height = 2, Width = 2, Channels = 1, Data = [1, 2, 3, 4 :: real]\<rparr>"
        "\<lparr>KernelSize = 3, PoolStride = 1, PoolType = MaxPooling\<rparr>"]
    by blast
qed

text \<open>
  The claim as the specification states it fails: on a nil input \<^verbatim>\<open>Conv2D\<close> panics, and
  on a stride of zero \<^verbatim>\<open>Pooling2D\<close> panics; neither hands an error value to its caller.
\<close>

theorem validation_failure_is_a_panic:
  "Conv2D None (Some \<lparr>Size = 1, KChannels = 1, Filters = 1, Weights = [1 :: real]\<rparr>) [0]
     \<lparr>Padding = 0, Stride = 1\<rparr> = Panicked (Conv2DValidationFailed InputIsNil)
   \<and> Pooling2D (Some \<lparr>Height = 2, Width = 2, Channels = 1, Data = [1, 2, 3, 4]\<rparr>)
     \<lparr>KernelSize = 2, PoolStride = 0, PoolType = MaxPooling\<rparr>
       = Panicked (PoolingValidationFailed (PoolStrideNotPositive 0))"
  by (simp add: Conv2D_def validateConv2DInputs_def Pooling2D_def validatePoolingInputs_def)

section \<open>Convolution\<close>

lemma convolveFilter_at_conv_sum:
  "convolveFilter_at input kern f b config i j out
   = Option.bind (conv_sum input kern config f i j) (\<lambda>sum. SetUnsafe out f i j (sum + b))"
  by (simp add: convolveFilter_at_def conv_sum_def)

lemma conv_sum_Some:
  fixes pin :: "('a::{zero,plus,times}) FeatureMap"
  assumes wf: "wf_FeatureMap pin" and wfk: "wf_Kernel ker"
    and ch: "KChannels ker = Channels pin"
    and f: "0 \<le> f" "f < Filters ker"
    and st: "0 \<le> Stride cfg"
    and i: "0 \<le> i" "i * Stride cfg + Size ker \<le> Height pin"
    and j: "0 \<le> j" "j * Stride cfg + Size ker \<le> Width pin"
  shows "conv_sum pin ker cfg f i j = Some (conv_acc pin ker cfg f i j)"
proof -
  let ?g = "\<lambda>c m n (sum :: 'a). sum + elem_at pin c (i * Stride cfg + m) (j * Stride cfg + n)
                   * weight_at ker f c m n"
  let ?b = "\<lambda>c m n (sum :: 'a). Option.bind (GetUnsafe pin c (i * Stride cfg + m) (j * Stride cfg + n))
               (\<lambda>inputVal. Option.bind (GetWeightUnsafe ker f c m n)
                  (\<lambda>kernelWeight. Some (sum + inputVal * kernelWeight)))"
  have elem: "?b c m n s = Some (?g c m n s)"
    if "c \<in> set [0..KChannels ker - 1]" "m \<in> set [0..Size ker - 1]" "n \<in> set [0..Size ker - 1]"
    for c m n s
  proof -
    have r: "0 \<le> c" "c < Channels pin" "0 \<le> m" "m < Size ker" "0 \<le> n" "n < Size ker"
      using that ch by simp_all
    have h: "0 \<le> i * Stride cfg + m" "i * Stride cfg + m < Height pin"
      using r i st by simp_all
    have w: "0 \<le> j * Stride cfg + n" "j * Stride cfg + n < Width pin"
      using r j st by simp_all
    have g: "GetUnsafe pin c (i * Stride cfg + m) (j * Stride cfg + n)
             = Some (elem_at pin c (i * Stride cfg + m) (j * Stride cfg + n))"
      unfolding elem_at_def by (rule GetUnsafe_Some[OF wf r(1,2) h w])
    have k: "GetWeightUnsafe ker f c m n = Some (weight_at ker f c m n)"
      unfolding weight_at_def using r ch by (intro GetWeightUnsafe_Some[OF wfk f]) simp_all
    show ?thesis by (simp add: g k)
  qed
  have lvl_n: "for_each [0..Size ker - 1] (?b c m) s = Some (fold (?g c m) [0..Size ker - 1] s)"
    if "c \<in> set [0..KChannels ker - 1]" "m \<in> set [0..Size ker - 1]" for c m s
    by (rule for_each_pure) (use that elem in blast)
  have lvl_m: "for_each [0..Size ker - 1] (\<lambda>m. for_each [0..Size ker - 1] (?b c m)) s
               = Some (fold (\<lambda>m. fold (?g c m) [0..Size ker - 1]) [0..Size ker - 1] s)"
    if "c \<in> set [0..KChannels ker - 1]" for c s
    by (rule for_each_pure) (use that lvl_n in blast)
  have "for_each [0..KChannels ker - 1]
          (\<lambda>c. for_each [0..Size ker - 1] (\<lambda>m. for_each [0..Size ker - 1] (?b c m))) 0
        = Some (fold (\<lambda>c. fold (\<lambda>m. fold (?g c m) [0..Size ker - 1]) [0..Size ker - 1])
                  [0..KChannels ker - 1] 0)"
    by (rule for_each_pure) (use lvl_m in blast)
  then show ?thesis by (simp add: conv_sum_def conv_acc_def)
qed

lemma conv_readyD:
  assumes "conv_ready input ker bias cfg"
  shows "wf_FeatureMap input" "wf_Kernel ker" "KChannels ker = Channels input"
    "int (length bias) = Filters ker" "0 < Stride cfg" "0 \<le> Padding cfg"
    "Size ker \<le> Height input + 2 * Padding cfg" "Size ker \<le> Width input + 2 * Padding cfg"
    "0 \<le> Height input" "0 \<le> Width input" "0 \<le> Channels input" "0 \<le> Filters ker"
    "0 \<le> Size ker"
  using assms
  by (simp_all add: conv_ready_def validateConv2DInputs_None_iff wf_FeatureMap_def wf_Kernel_def)

lemma out_dim_positive:
  assumes "0 < Stride cfg" "Size ker \<le> n + 2 * Padding cfg"
  shows "1 \<le> out_dim n ker cfg"
  using assms by (simp add: out_dim_def pos_imp_zdiv_nonneg_iff)

lemma window_fits:
  assumes st: "0 < Stride cfg" and fit: "Size ker \<le> n + 2 * Padding cfg"
    and i: "0 \<le> i" "i < out_dim n ker cfg"
  shows "i * Stride cfg + Size ker \<le> n + 2 * Padding cfg"
proof -
  let ?a = "n + 2 * Padding cfg - Size ker"
  have "i \<le> ?a div Stride cfg" using i(2) by (simp add: out_dim_def)
  then have "i * Stride cfg \<le> (?a div Stride cfg) * Stride cfg"
    using st by (intro mult_right_mono) simp_all
  also have "\<dots> \<le> ?a"
    using pos_mod_sign[OF st, of ?a] div_mult_mod_eq[of ?a "Stride cfg"] by linarith
  finally show ?thesis by simp
qed

lemma padded_input_props:
  fixes input :: "('a::zero) FeatureMap"
  assumes wf: "wf_FeatureMap input" and p: "0 \<le> Padding cfg"
  defines "PH \<equiv> Height input + 2 * Padding cfg" and "PW \<equiv> Width input + 2 * Padding cfg"
  shows "(if Padding cfg > 0 then PadFeatureMap input (Padding cfg) else Some input)
           = Some (padded_input input cfg)"
    and "Height (padded_input input cfg) = PH" and "Width (padded_input input cfg) = PW"
    and "Channels (padded_input input cfg) = Channels input"
    and "wf_FeatureMap (padded_input input cfg)"
    and "\<And>q. q \<in> set (box (Channels input) PH PW) \<Longrightarrow>
           Data (padded_input input cfg) ! flat PH PW q
           = padded_at input (Padding cfg) (fst q) (fst (snd q)) (snd (snd q))"
proof -
  have all: "(if Padding cfg > 0 then PadFeatureMap input (Padding cfg) else Some input)
           = Some (padded_input input cfg)
     \<and> Height (padded_input input cfg) = PH \<and> Width (padded_input input cfg) = PW
     \<and> Channels (padded_input input cfg) = Channels input
     \<and> wf_FeatureMap (padded_input input cfg)
     \<and> (\<forall>q\<in>set (box (Channels input) PH PW).
           Data (padded_input input cfg) ! flat PH PW q
           = padded_at input (Padding cfg) (fst q) (fst (snd q)) (snd (snd q)))"
  proof (cases "Padding cfg > 0")
    case True
    from PadFeatureMap_positive[OF wf True]
    obtain pin where pin: "PadFeatureMap input (Padding cfg) = Some pin"
      "Height pin = PH" "Width pin = PW" "Channels pin = Channels input" "wf_FeatureMap pin"
      "\<forall>q\<in>set (box (Channels input) PH PW).
          Data pin ! flat PH PW q = padded_at input (Padding cfg) (fst q) (fst (snd q)) (snd (snd q))"
      unfolding PH_def PW_def by blast
    have "padded_input input cfg = pin" using True pin(1) by (simp add: padded_input_def)
    then show ?thesis using True pin by simp
  next
    case False
    then have p0: "Padding cfg = 0" using p by simp
    have same: "padded_input input cfg = input" using False by (simp add: padded_input_def)
    have "Data input ! flat PH PW q = padded_at input 0 (fst q) (fst (snd q)) (snd (snd q))"
      if "q \<in> set (box (Channels input) PH PW)" for q
      using that by (simp add: padded_at_def flat_def set_box PH_def PW_def p0)
    then show ?thesis using False same wf p0 by (simp add: PH_def PW_def)
  qed
  show "(if Padding cfg > 0 then PadFeatureMap input (Padding cfg) else Some input)
           = Some (padded_input input cfg)"
    and "Height (padded_input input cfg) = PH" and "Width (padded_input input cfg) = PW"
    and "Channels (padded_input input cfg) = Channels input"
    and "wf_FeatureMap (padded_input input cfg)"
    and "\<And>q. q \<in> set (box (Channels input) PH PW) \<Longrightarrow>
           Data (padded_input input cfg) ! flat PH PW q
           = padded_at input (Padding cfg) (fst q) (fst (snd q)) (snd (snd q))"
    using all by blast+
qed

lemma conv_prepare_ready:
  fixes input :: "('a::zero) FeatureMap"
  assumes "conv_ready input ker bias cfg"
  shows "conv_prepare input ker cfg = Some (padded_input input cfg, conv_out0 input ker cfg)"
proof -
  note r = conv_readyD[OF assms]
  note pi = padded_input_props[OF r(1) r(6)]
  have qh: "go_div (Height input + 2 * Padding cfg - Size ker) (Stride cfg)
            = Some ((Height input + 2 * Padding cfg - Size ker) div Stride cfg)"
    using r by (simp add: go_div_def go_quot_nonneg)
  have qw: "go_div (Width input + 2 * Padding cfg - Size ker) (Stride cfg)
            = Some ((Width input + 2 * Padding cfg - Size ker) div Stride cfg)"
    using r by (simp add: go_div_def go_quot_nonneg)
  have oh: "1 \<le> out_dim (Height input) ker cfg" using r by (intro out_dim_positive) simp_all
  have ow: "1 \<le> out_dim (Width input) ker cfg" using r by (intro out_dim_positive) simp_all
  have nn: "0 \<le> out_dim (Height input) ker cfg * out_dim (Width input) ker cfg * Filters ker"
    using oh ow r(12) by simp
  have new: "NewFeatureMap (out_dim (Height input) ker cfg) (out_dim (Width input) ker cfg) (Filters ker)
             = Some (conv_out0 input ker cfg)"
    using NewFeatureMap_Some[OF nn] by (simp add: conv_out0_def)
  show ?thesis
    unfolding conv_prepare_def pi(1)
    using qh qw new by (simp add: pi(2,3) out_dim_def Let_def)
qed


lemma conv_step:
  fixes input :: "('a::{zero,plus,times}) FeatureMap"
  assumes ready: "conv_ready input ker bias cfg"
    and q: "(f, i, j) \<in> set (box (Filters ker) (out_dim (Height input) ker cfg) (out_dim (Width input) ker cfg))"
    and sh: "same_shape (out_dim (Height input) ker cfg) (out_dim (Width input) ker cfg) (Filters ker)
               (nat (out_dim (Height input) ker cfg * out_dim (Width input) ker cfg * Filters ker)) fm"
  shows "Option.bind (conv_sum (padded_input input cfg) ker cfg f i j)
           (\<lambda>sum. Option.bind (slice_get bias f) (\<lambda>b. SetUnsafe fm f i j (sum + b)))
         = Some (fm\<lparr>Data := put (out_dim (Height input) ker cfg) (out_dim (Width input) ker cfg)
                              (conv_value (padded_input input cfg) ker bias cfg) (f, i, j) (Data fm)\<rparr>)"
    and "Option.bind (slice_get bias f)
           (\<lambda>b. convolveFilter_at (padded_input input cfg) ker f b cfg i j fm)
         = Some (fm\<lparr>Data := put (out_dim (Height input) ker cfg) (out_dim (Width input) ker cfg)
                              (conv_value (padded_input input cfg) ker bias cfg) (f, i, j) (Data fm)\<rparr>)"
proof -
  note r = conv_readyD[OF ready]
  note pi = padded_input_props[OF r(1) r(6)]
  let ?pin = "padded_input input cfg"
  let ?OH = "out_dim (Height input) ker cfg" and ?OW = "out_dim (Width input) ker cfg"
  have fij: "0 \<le> f" "f < Filters ker" "0 \<le> i" "i < ?OH" "0 \<le> j" "j < ?OW"
    using q by (simp_all add: set_box)
  have hi: "i * Stride cfg + Size ker \<le> Height ?pin"
    using window_fits[OF r(5) r(7) fij(3,4)] by (simp add: pi(2))
  have wj: "j * Stride cfg + Size ker \<le> Width ?pin"
    using window_fits[OF r(5) r(8) fij(5,6)] by (simp add: pi(3))
  have st: "0 \<le> Stride cfg" using r(5) by simp
  have ch: "KChannels ker = Channels ?pin" using r(3) by (simp add: pi(4))
  have s: "conv_sum ?pin ker cfg f i j = Some (conv_acc ?pin ker cfg f i j)"
    by (rule conv_sum_Some[OF pi(5) r(2) ch fij(1,2) st fij(3) hi fij(5) wj])
  have b: "slice_get bias f = Some (bias ! nat f)"
    using fij(1,2) r(4) by (simp add: slice_get_def)
  have w: "SetUnsafe fm f i j (conv_acc ?pin ker cfg f i j + bias ! nat f)
           = Some (fm\<lparr>Data := put ?OH ?OW (conv_value ?pin ker bias cfg) (f, i, j) (Data fm)\<rparr>)"
    unfolding SetUnsafe_in_box[OF sh q] by (simp add: put_def conv_value_def)
  show "Option.bind (conv_sum ?pin ker cfg f i j)
           (\<lambda>sum. Option.bind (slice_get bias f) (\<lambda>b. SetUnsafe fm f i j (sum + b)))
         = Some (fm\<lparr>Data := put ?OH ?OW (conv_value ?pin ker bias cfg) (f, i, j) (Data fm)\<rparr>)"
    by (simp add: s b w)
  show "Option.bind (slice_get bias f) (\<lambda>b. convolveFilter_at ?pin ker f b cfg i j fm)
         = Some (fm\<lparr>Data := put ?OH ?OW (conv_value ?pin ker bias cfg) (f, i, j) (Data fm)\<rparr>)"
    by (simp add: convolveFilter_at_conv_sum s b w)
qed

lemma conv_out0_shape:
  "same_shape (out_dim (Height input) ker cfg) (out_dim (Width input) ker cfg) (Filters ker)
     (nat (out_dim (Height input) ker cfg * out_dim (Width input) ker cfg * Filters ker))
     (conv_out0 input ker cfg)"
  by (simp add: same_shape_def conv_out0_def)

lemma fold_put_pairs:
  "fold (\<lambda>a. fold (\<lambda>q. put H W v (a, q)) qs) as d = fold (put H W v) (List.product as qs) d"
  using fold_product[of "\<lambda>a q. put H W v (a, q)" qs as d] by simp

lemma Conv2D_serial:
  fixes input :: "('a::{zero,plus,times}) FeatureMap"
  assumes ready: "conv_ready input ker bias cfg"
  shows "Conv2D (Some input) (Some ker) bias cfg = Returned (conv_result input ker bias cfg)"
proof -
  let ?pin = "padded_input input cfg"
  let ?OH = "out_dim (Height input) ker cfg" and ?OW = "out_dim (Width input) ker cfg"
  let ?F = "Filters ker"
  let ?L = "nat (?OH * ?OW * ?F)"
  let ?val = "conv_value ?pin ker bias cfg"
  let ?rows = "List.product [0..?OH - 1] [0..?OW - 1]"
  let ?body = "\<lambda>f output. Option.bind (slice_get bias f)
                 (\<lambda>b. convolveFilter ?pin ker output f b cfg)"
  have v: "validateConv2DInputs (Some input) (Some ker) bias cfg = None"
    using ready by (simp add: conv_ready_def)
  note r = conv_readyD[OF ready]
  have per_filter: "?body f fm
      = (if True then Some (fm\<lparr>Data := fold (\<lambda>q. put ?OH ?OW ?val (f, q)) ?rows (Data fm)\<rparr>) else None)"
    if f: "f \<in> set [0..?F - 1]" and sh: "same_shape ?OH ?OW ?F ?L fm" for f and fm :: "'a FeatureMap"
  proof -
    have b: "slice_get bias f = Some (bias ! nat f)"
      using f r(4) by (simp add: slice_get_def)
    have hw: "Height fm = ?OH" "Width fm = ?OW" using sh by (simp_all add: same_shape_def)
    have "for_each [0..?OH - 1] (\<lambda>i. for_each [0..?OW - 1]
             (\<lambda>j. convolveFilter_at ?pin ker f (bias ! nat f) cfg i j)) fm
          = (if \<forall>p\<in>set ?rows. True
             then Some (fm\<lparr>Data := fold (\<lambda>q. put ?OH ?OW ?val (f, q)) ?rows (Data fm)\<rparr>) else None)"
    proof (rule for_each2_Data_if[where H = ?OH and W = ?OW and C = ?F and L = ?L])
      show "same_shape ?OH ?OW ?F ?L fm" by (rule sh)
    next
      fix p :: "int \<times> int" and d :: "'a list"
      assume "length d = ?L"
      then show "length (put ?OH ?OW ?val (f, p) d) = ?L" by (simp add: put_length)
    next
      fix i j and fm' :: "'a FeatureMap"
      assume ij: "i \<in> set [0..?OH - 1]" "j \<in> set [0..?OW - 1]" and sh': "same_shape ?OH ?OW ?F ?L fm'"
      have q: "(f, i, j) \<in> set (box ?F ?OH ?OW)" using f ij by (simp add: set_box)
      have "convolveFilter_at ?pin ker f (bias ! nat f) cfg i j fm'
            = Some (fm'\<lparr>Data := put ?OH ?OW ?val (f, i, j) (Data fm')\<rparr>)"
        using conv_step(2)[OF ready q sh'] b by simp
      then show "convolveFilter_at ?pin ker f (bias ! nat f) cfg i j fm'
            = (if True then Some (fm'\<lparr>Data := put ?OH ?OW ?val (f, (i, j)) (Data fm')\<rparr>) else None)"
        by simp
    qed
    then show ?thesis by (simp add: b convolveFilter_def hw)
  qed
  have loop: "for_each [0..?F - 1] ?body (conv_out0 input ker cfg)
      = (if \<forall>f\<in>set [0..?F - 1]. True
         then Some ((conv_out0 input ker cfg)\<lparr>Data :=
                fold (\<lambda>f. fold (\<lambda>q. put ?OH ?OW ?val (f, q)) ?rows) [0..?F - 1]
                  (Data (conv_out0 input ker cfg))\<rparr>) else None)"
  proof (rule for_each_Data_if[where H = ?OH and W = ?OW and C = ?F and L = ?L])
    show "same_shape ?OH ?OW ?F ?L (conv_out0 input ker cfg)" by (rule conv_out0_shape)
  next
    fix f and d :: "'a list"
    assume "length d = ?L"
    then show "length (fold (\<lambda>q. put ?OH ?OW ?val (f, q)) ?rows d) = ?L"
      by (intro fold_preserves_length[where L = ?L]) (simp_all add: put_length)
  next
    fix f and fm :: "'a FeatureMap"
    assume "f \<in> set [0..?F - 1]" "same_shape ?OH ?OW ?F ?L fm"
    then show "?body f fm
      = (if True then Some (fm\<lparr>Data := fold (\<lambda>q. put ?OH ?OW ?val (f, q)) ?rows (Data fm)\<rparr>) else None)"
      by (rule per_filter)
  qed
  have "for_each [0..?F - 1] ?body (conv_out0 input ker cfg) = Some (conv_result input ker bias cfg)"
    unfolding loop by (simp add: fold_put_pairs conv_result_def box_def)
  then show ?thesis
    by (simp add: Conv2D_def v conv_prepare_ready[OF ready] of_option_def)
qed

lemma for_step_steps:
  "0 < step \<Longrightarrow> for_step start limit step body s = for_each (steps start limit step) body s"
proof (induction start limit step arbitrary: s rule: steps.induct)
  case (1 start limit step)
  show ?case
  proof (cases "start < limit")
    case True
    have ih: "for_step (start + step) limit step body s'
              = for_each (steps (start + step) limit step) body s'" for s'
      using 1 True by simp
    have "for_step start limit step body s
          = Option.bind (body start s) (\<lambda>s'. for_step (start + step) limit step body s')"
      using True by (subst for_step.simps) simp
    also have "\<dots> = Option.bind (body start s) (for_each (steps (start + step) limit step) body)"
      by (simp add: ih)
    also have "\<dots> = for_each (steps start limit step) body s"
      using True 1(2) by (subst (2) steps.simps) simp
    finally show ?thesis .
  next
    case False
    then show ?thesis
      by (subst for_step.simps, subst steps.simps) simp
  qed
qed

lemma for_step_steps_fun:
  "0 < step \<Longrightarrow> for_step start limit step body = for_each (steps start limit step) body"
  by (rule ext) (rule for_step_steps)

lemma steps_range: "t \<in> set (steps a n step) \<Longrightarrow> a \<le> t \<and> t < n \<and> 0 < step"
proof (induction a n step rule: steps.induct)
  case (1 start limit step)
  show ?case
  proof (cases "start < limit \<and> 0 < step")
    case True
    then have "t = start \<or> t \<in> set (steps (start + step) limit step)"
      using "1.prems" by (subst (asm) steps.simps) simp
    then show ?thesis using 1(1) True by auto
  next
    case False
    then show ?thesis using "1.prems" by (subst (asm) steps.simps) simp
  qed
qed

lemma steps_cover:
  "0 < step \<Longrightarrow> (\<Union>t\<in>set (steps a n step). {t..(if t + step > n then n else t + step) - 1}) = {a..n - 1}"
proof (induction a n step rule: steps.induct)
  case (1 start limit step)
  show ?case
  proof (cases "start < limit")
    case True
    have ih: "(\<Union>t\<in>set (steps (start + step) limit step).
                 {t..(if t + step > limit then limit else t + step) - 1}) = {start + step..limit - 1}"
      using 1 True by simp
    have "steps start limit step = start # steps (start + step) limit step"
      using True 1(2) by (subst steps.simps) simp
    then have "(\<Union>t\<in>set (steps start limit step). {t..(if t + step > limit then limit else t + step) - 1})
          = {start..(if start + step > limit then limit else start + step) - 1}
            \<union> {start + step..limit - 1}"
      using ih by simp
    also have "\<dots> = {start..limit - 1}" using True 1(2) by auto
    finally show ?thesis .
  next
    case False
    then show ?thesis by (subst steps.simps) simp
  qed
qed


lemma processTile_conv_sum:
  "processTile input kern output bias config fS fE rS rE cS cE
   = for_each [fS..fE - 1] (\<lambda>f. for_each [rS..rE - 1] (\<lambda>i. for_each [cS..cE - 1]
       (\<lambda>j output. Option.bind (conv_sum input kern config f i j)
          (\<lambda>sum. Option.bind (slice_get bias f) (\<lambda>b. SetUnsafe output f i j (sum + b)))))) output"
  by (simp add: processTile_def conv_sum_def)

lemma processTile_result:
  fixes input :: "('a::{zero,plus,times}) FeatureMap"
  assumes ready: "conv_ready input ker bias cfg"
    and sub: "set (List.product [fS..fE - 1] (List.product [rS..rE - 1] [cS..cE - 1]))
              \<subseteq> set (box (Filters ker) (out_dim (Height input) ker cfg) (out_dim (Width input) ker cfg))"
    and sh: "same_shape (out_dim (Height input) ker cfg) (out_dim (Width input) ker cfg) (Filters ker)
               (nat (out_dim (Height input) ker cfg * out_dim (Width input) ker cfg * Filters ker)) fm"
  shows "processTile (padded_input input cfg) ker fm bias cfg fS fE rS rE cS cE
         = Some (fm\<lparr>Data := fold (put (out_dim (Height input) ker cfg) (out_dim (Width input) ker cfg)
                                   (conv_value (padded_input input cfg) ker bias cfg))
                   (List.product [fS..fE - 1] (List.product [rS..rE - 1] [cS..cE - 1])) (Data fm)\<rparr>)"
proof -
  let ?pin = "padded_input input cfg"
  let ?OH = "out_dim (Height input) ker cfg" and ?OW = "out_dim (Width input) ker cfg"
  let ?F = "Filters ker"
  let ?L = "nat (?OH * ?OW * ?F)"
  let ?val = "conv_value ?pin ker bias cfg"
  let ?tile = "List.product [fS..fE - 1] (List.product [rS..rE - 1] [cS..cE - 1])"
  let ?body = "\<lambda>f i j output. Option.bind (conv_sum ?pin ker cfg f i j)
          (\<lambda>sum. Option.bind (slice_get bias f) (\<lambda>b. SetUnsafe output f i j (sum + b)))"
  have "for_each [fS..fE - 1] (\<lambda>f. for_each [rS..rE - 1] (\<lambda>i. for_each [cS..cE - 1] (?body f i))) fm
        = (if \<forall>p\<in>set ?tile. True
           then Some (fm\<lparr>Data := fold (put ?OH ?OW ?val) ?tile (Data fm)\<rparr>) else None)"
  proof (rule for_each3_Data_if[where H = ?OH and W = ?OW and C = ?F and L = ?L])
    show "same_shape ?OH ?OW ?F ?L fm" by (rule sh)
  next
    fix p :: "int \<times> int \<times> int" and d :: "'a list"
    assume "length d = ?L"
    then show "length (put ?OH ?OW ?val p d) = ?L" by (simp add: put_length)
  next
    fix f i j and fm' :: "'a FeatureMap"
    assume m: "f \<in> set [fS..fE - 1]" "i \<in> set [rS..rE - 1]" "j \<in> set [cS..cE - 1]"
      and sh': "same_shape ?OH ?OW ?F ?L fm'"
    have "(f, i, j) \<in> set ?tile" using m by simp
    then have q: "(f, i, j) \<in> set (box ?F ?OH ?OW)" using sub by blast
    show "?body f i j fm'
          = (if True then Some (fm'\<lparr>Data := put ?OH ?OW ?val (f, i, j) (Data fm')\<rparr>) else None)"
      using conv_step(1)[OF ready q sh'] by simp
  qed
  then show ?thesis by (simp add: processTile_conv_sum)
qed

lemma fold_concat_map: "fold (\<lambda>p. fold f (g p)) ps d = fold f (concat (map g ps)) d"
  by (induction ps arbitrary: d) simp_all

lemma box_set_times:
  "set (List.product as (List.product bs cs)) = set as \<times> set bs \<times> set cs"
  by simp

lemma conv2DTiled_result:
  fixes input :: "('a::{zero,plus,times}) FeatureMap"
  assumes ready: "conv_ready input ker bias cfg" and bs: "0 \<le> BlockSize ce"
  shows "conv2DTiled ce (Some input) (Some ker) bias cfg = Returned (conv_result input ker bias cfg)"
proof -
  let ?pin = "padded_input input cfg"
  let ?OH = "out_dim (Height input) ker cfg" and ?OW = "out_dim (Width input) ker cfg"
  let ?F = "Filters ker"
  let ?L = "nat (?OH * ?OW * ?F)"
  let ?val = "conv_value ?pin ker bias cfg"
  define T where "T = (if BlockSize ce = 0 then 32 else BlockSize ce)"
  have T: "0 < T" using bs by (simp add: T_def)
  define e where "e = (\<lambda>n t. if t + T > n then n else t + T)"
  define tile where "tile = (\<lambda>p :: int \<times> int \<times> int.
      List.product [fst p..e ?F (fst p) - 1]
        (List.product [fst (snd p)..e ?OH (fst (snd p)) - 1] [snd (snd p)..e ?OW (snd (snd p)) - 1]))"
  define grid where "grid = List.product (steps 0 ?F T) (List.product (steps 0 ?OH T) (steps 0 ?OW T))"
  have tile_sub: "set (tile p) \<subseteq> set (box ?F ?OH ?OW)" if "p \<in> set grid" for p
  proof -
    have "0 \<le> fst p" "0 \<le> fst (snd p)" "0 \<le> snd (snd p)"
      using that steps_range[of "fst p" 0 ?F T] steps_range[of "fst (snd p)" 0 ?OH T]
        steps_range[of "snd (snd p)" 0 ?OW T]
      by (auto simp: grid_def)
    then show ?thesis by (auto simp: tile_def box_def e_def split: if_splits)
  qed
  let ?body = "\<lambda>fS rS cS output. processTile ?pin ker output bias cfg
                  fS (e ?F fS) rS (e ?OH rS) cS (e ?OW cS)"
  have loop: "for_each (steps 0 ?F T) (\<lambda>fS. for_each (steps 0 ?OH T) (\<lambda>rS.
                for_each (steps 0 ?OW T) (?body fS rS))) (conv_out0 input ker cfg)
        = (if \<forall>p\<in>set (List.product (steps 0 ?F T) (List.product (steps 0 ?OH T) (steps 0 ?OW T))). True
           then Some ((conv_out0 input ker cfg)\<lparr>Data :=
                  fold (\<lambda>p. fold (put ?OH ?OW ?val) (tile p))
                    (List.product (steps 0 ?F T) (List.product (steps 0 ?OH T) (steps 0 ?OW T)))
                    (Data (conv_out0 input ker cfg))\<rparr>)
           else None)"
  proof (rule for_each3_Data_if[where H = ?OH and W = ?OW and C = ?F and L = ?L])
    show "same_shape ?OH ?OW ?F ?L (conv_out0 input ker cfg)" by (rule conv_out0_shape)
  next
    fix p :: "int \<times> int \<times> int" and d :: "'a list"
    assume "length d = ?L"
    then show "length (fold (put ?OH ?OW ?val) (tile p) d) = ?L" by (simp add: fold_put_length)
  next
    fix fS rS cS and fm :: "'a FeatureMap"
    assume m: "fS \<in> set (steps 0 ?F T)" "rS \<in> set (steps 0 ?OH T)" "cS \<in> set (steps 0 ?OW T)"
      and sh: "same_shape ?OH ?OW ?F ?L fm"
    have g: "(fS, rS, cS) \<in> set grid" using m by (simp add: grid_def)
    have sub: "set (List.product [fS..e ?F fS - 1] (List.product [rS..e ?OH rS - 1] [cS..e ?OW cS - 1]))
               \<subseteq> set (box ?F ?OH ?OW)"
      using tile_sub[OF g] by (simp add: tile_def)
    show "?body fS rS cS fm
          = (if True then Some (fm\<lparr>Data := fold (put ?OH ?OW ?val) (tile (fS, rS, cS)) (Data fm)\<rparr>)
             else None)"
      using processTile_result[OF ready sub sh] by (simp add: tile_def)
  qed
  have flatten: "fold (\<lambda>p. fold (put ?OH ?OW ?val) (tile p)) grid d
                 = fold (put ?OH ?OW ?val) (concat (map tile grid)) d" for d
    by (rule fold_concat_map)
  have cover: "set (concat (map tile grid)) = set (box ?F ?OH ?OW)"
  proof -
    have "set (concat (map tile grid))
          = (\<Union>fS\<in>set (steps 0 ?F T). \<Union>rS\<in>set (steps 0 ?OH T). \<Union>cS\<in>set (steps 0 ?OW T).
               {fS..e ?F fS - 1} \<times> {rS..e ?OH rS - 1} \<times> {cS..e ?OW cS - 1})"
      by (auto simp: grid_def tile_def) blast+
    also have "\<dots> = (\<Union>fS\<in>set (steps 0 ?F T). {fS..e ?F fS - 1})
                   \<times> (\<Union>rS\<in>set (steps 0 ?OH T). {rS..e ?OH rS - 1})
                   \<times> (\<Union>cS\<in>set (steps 0 ?OW T). {cS..e ?OW cS - 1})"
      by blast
    also have "\<dots> = {0..?F - 1} \<times> {0..?OH - 1} \<times> {0..?OW - 1}"
      unfolding e_def by (simp only: steps_cover[OF T])
    also have "\<dots> = set (box ?F ?OH ?OW)" by (simp add: box_def)
    finally show ?thesis .
  qed
  have same: "fold (put ?OH ?OW ?val) (concat (map tile grid)) d
              = fold (put ?OH ?OW ?val) (box ?F ?OH ?OW) d" for d
    by (rule fold_put_set_eq[OF cover refl])
  have "for_each (steps 0 ?F T) (\<lambda>fS. for_each (steps 0 ?OH T) (\<lambda>rS.
                for_each (steps 0 ?OW T) (?body fS rS))) (conv_out0 input ker cfg)
        = Some (conv_result input ker bias cfg)"
    unfolding loop using flatten same by (simp add: conv_result_def grid_def)
  then show ?thesis
    using T
    by (simp add: conv2DTiled_def conv_prepare_ready[OF ready] of_option_def Let_def
        for_step_steps_fun T_def[symmetric] e_def conv_out0_def cong del: if_weak_cong)
qed

lemma worker_schedule_set:
  assumes "worker_schedule F OH OW sched"
  shows "set sched = set (box F OH OW)"
proof (rule set_eqI)
  fix a :: "int \<times> int \<times> int"
  have rng: "\<forall>a\<in>set sched. 0 \<le> fst a \<and> fst a < F"
    and per: "\<forall>f\<in>set [0..F - 1]. filter (\<lambda>a. fst a = f) sched
                = map (Pair f) (List.product [0..OH - 1] [0..OW - 1])"
    using assms by (simp_all add: worker_schedule_def list_all_iff)
  show "a \<in> set sched \<longleftrightarrow> a \<in> set (box F OH OW)"
  proof
    assume a: "a \<in> set sched"
    then have f: "fst a \<in> set [0..F - 1]" using rng by auto
    have eq: "filter (\<lambda>b. fst b = fst a) sched
              = map (Pair (fst a)) (List.product [0..OH - 1] [0..OW - 1])"
      using per f by blast
    have "a \<in> set (filter (\<lambda>b. fst b = fst a) sched)" using a by simp
    then have "a \<in> set (map (Pair (fst a)) (List.product [0..OH - 1] [0..OW - 1]))"
      unfolding eq .
    then have "a \<in> Pair (fst a) ` set (List.product [0..OH - 1] [0..OW - 1])"
      by (simp only: set_map)
    then obtain q where q: "q \<in> set (List.product [0..OH - 1] [0..OW - 1])" "a = (fst a, q)"
      by blast
    have sq: "snd a = q" using q(2) by (metis snd_conv)
    have "0 \<le> fst q \<and> fst q < OH \<and> 0 \<le> snd q \<and> snd q < OW"
      using q(1) by (simp add: mem_Times_iff)
    then show "a \<in> set (box F OH OW)" using f sq by (simp add: set_box)
  next
    assume a: "a \<in> set (box F OH OW)"
    then have f: "fst a \<in> set [0..F - 1]" by (simp add: set_box)
    have eq: "filter (\<lambda>b. fst b = fst a) sched
              = map (Pair (fst a)) (List.product [0..OH - 1] [0..OW - 1])"
      using per f by blast
    have "snd a \<in> set (List.product [0..OH - 1] [0..OW - 1])"
      using a by (simp add: set_box mem_Times_iff)
    then have "(fst a, snd a) \<in> Pair (fst a) ` set (List.product [0..OH - 1] [0..OW - 1])"
      by (rule imageI)
    then have "a \<in> set (map (Pair (fst a)) (List.product [0..OH - 1] [0..OW - 1]))"
      by (simp only: set_map prod.collapse)
    then have "a \<in> set (filter (\<lambda>b. fst b = fst a) sched)" unfolding eq .
    then show "a \<in> set sched" by simp
  qed
qed

lemma Conv2DParallel_result:
  fixes input :: "('a::{zero,plus,times}) FeatureMap"
  assumes ready: "conv_ready input ker bias cfg" and cpu: "1 \<le> numCPU"
    and sched: "worker_schedule (Filters ker) (out_dim (Height input) ker cfg)
                  (out_dim (Width input) ker cfg) schedule"
  shows "Conv2DParallel numCPU schedule (Some input) (Some ker) bias cfg
         = Returned (conv_result input ker bias cfg)"
proof -
  let ?pin = "padded_input input cfg"
  let ?OH = "out_dim (Height input) ker cfg" and ?OW = "out_dim (Width input) ker cfg"
  let ?F = "Filters ker"
  let ?L = "nat (?OH * ?OW * ?F)"
  let ?val = "conv_value ?pin ker bias cfg"
  let ?body = "\<lambda>(filterIdx, i, j) output. Option.bind (slice_get bias filterIdx)
                 (\<lambda>b. convolveFilter_at ?pin ker filterIdx b cfg i j output)"
  have v: "validateConv2DInputs (Some input) (Some ker) bias cfg = None"
    using ready by (simp add: conv_ready_def)
  note r = conv_readyD[OF ready]
  have set_eq: "set schedule = set (box ?F ?OH ?OW)" by (rule worker_schedule_set[OF sched])
  have loop: "for_each schedule ?body (conv_out0 input ker cfg)
      = (if \<forall>p\<in>set schedule. True
         then Some ((conv_out0 input ker cfg)\<lparr>Data :=
                fold (put ?OH ?OW ?val) schedule (Data (conv_out0 input ker cfg))\<rparr>) else None)"
  proof (rule for_each_Data_if[where H = ?OH and W = ?OW and C = ?F and L = ?L])
    show "same_shape ?OH ?OW ?F ?L (conv_out0 input ker cfg)" by (rule conv_out0_shape)
  next
    fix p :: "int \<times> int \<times> int" and d :: "'a list"
    assume "length d = ?L"
    then show "length (put ?OH ?OW ?val p d) = ?L" by (simp add: put_length)
  next
    fix p and fm :: "'a FeatureMap"
    assume p: "p \<in> set schedule" and sh: "same_shape ?OH ?OW ?F ?L fm"
    obtain f i j where pq: "p = (f, i, j)" by (cases p) auto
    have q: "(f, i, j) \<in> set (box ?F ?OH ?OW)" using p set_eq pq by simp
    show "?body p fm = (if True then Some (fm\<lparr>Data := put ?OH ?OW ?val p (Data fm)\<rparr>) else None)"
      using conv_step(2)[OF ready q sh] by (simp add: pq)
  qed
  have same: "fold (put ?OH ?OW ?val) schedule d = fold (put ?OH ?OW ?val) (box ?F ?OH ?OW) d" for d
    by (rule fold_put_set_eq[OF set_eq refl])
  have run: "for_each schedule ?body (conv_out0 input ker cfg) = Some (conv_result input ker bias cfg)"
    unfolding loop using same by (simp add: conv_result_def)
  show ?thesis
  proof (cases "?F = 0")
    case True
    then have "box ?F ?OH ?OW = []" by (simp add: box_def)
    then have "conv_result input ker bias cfg = conv_out0 input ker cfg"
      by (simp add: conv_result_def)
    then show ?thesis
      using True cpu
      by (simp add: Conv2DParallel_def v conv_prepare_ready[OF ready] of_option_def Let_def)
  next
    case False
    then have "1 \<le> ?F" using r(12) by simp
    then have "\<not> (if ?F < numCPU then ?F else numCPU) \<le> 0" using cpu by simp
    then show ?thesis
      using run
      by (simp add: Conv2DParallel_def v conv_prepare_ready[OF ready] of_option_def Let_def)
  qed
qed

lemma fold_add_sum_list_gen:
  fixes g :: "'i \<Rightarrow> 'a::comm_monoid_add"
  shows "fold (\<lambda>x s. s + g x) xs s = s + sum_list (map g xs)"
  by (induction xs arbitrary: s) (simp_all add: add.assoc)

lemma fold_add_sum_fun:
  fixes g :: "int \<Rightarrow> 'a::comm_monoid_add"
  shows "fold (\<lambda>x s. s + g x) [a..b] = (\<lambda>s. s + (\<Sum>x = a..b. g x))"
proof (rule ext)
  fix s
  have "sum_list (map g [a..b]) = sum g (set [a..b])"
    by (rule sum_list_distinct_conv_sum_set) simp
  then show "fold (\<lambda>x s. s + g x) [a..b] s = s + (\<Sum>x = a..b. g x)"
    by (simp add: fold_add_sum_list_gen)
qed

lemma int_interval: "{0..n - 1} = {0..<n :: int}"
  by auto

lemma conv_acc_sum:
  fixes pin :: "('a::comm_semiring_0) FeatureMap"
  shows "conv_acc pin ker cfg f i j
         = (\<Sum>c = 0..<KChannels ker. \<Sum>m = 0..<Size ker. \<Sum>n = 0..<Size ker.
              elem_at pin c (i * Stride cfg + m) (j * Stride cfg + n) * weight_at ker f c m n)"
  by (simp add: conv_acc_def fold_add_sum_fun int_interval)

lemma padded_elem_at:
  fixes input :: "('a::zero) FeatureMap"
  assumes wf: "wf_FeatureMap input" and p: "0 \<le> Padding cfg"
    and c: "0 \<le> c" "c < Channels input"
    and h: "0 \<le> h" "h < Height input + 2 * Padding cfg"
    and w: "0 \<le> w" "w < Width input + 2 * Padding cfg"
  shows "elem_at (padded_input input cfg) c h w = padded_at input (Padding cfg) c h w"
proof -
  note pi = padded_input_props[OF wf p]
  have q: "(c, h, w) \<in> set (box (Channels input) (Height input + 2 * Padding cfg)
                               (Width input + 2 * Padding cfg))"
    using c h w by (simp add: set_box)
  show ?thesis using pi(6)[OF q] by (simp add: elem_at_def pi(2,3) flat_def)
qed

lemma Get_in_box:
  fixes out :: "'a FeatureMap"
  assumes "(c, h, w) \<in> set (box (Channels out) (Height out) (Width out))"
    and "length (Data out) = nat (Height out * Width out * Channels out)"
  shows "Get out c h w = Some (Data out ! flat (Height out) (Width out) (c, h, w))"
proof -
  have r: "0 \<le> c" "c < Channels out" "0 \<le> h" "h < Height out" "0 \<le> w" "w < Width out"
    using assms(1) by (simp_all add: set_box)
  note b = flat_index_bound[OF r]
  show ?thesis
    using b r assms(2) by (simp add: Get_def isValidIndex_def slice_get_def flat_def)
qed

lemma conv_result_Get:
  fixes input :: "('a::{zero,plus,times}) FeatureMap"
  assumes q: "(f, i, j) \<in> set (box (Filters ker) (out_dim (Height input) ker cfg)
                                (out_dim (Width input) ker cfg))"
  shows "Get (conv_result input ker bias cfg) f i j
         = Some (conv_value (padded_input input cfg) ker bias cfg (f, i, j))"
proof -
  let ?OH = "out_dim (Height input) ker cfg" and ?OW = "out_dim (Width input) ker cfg"
  let ?out = "conv_result input ker bias cfg"
  have d: "Height ?out = ?OH" "Width ?out = ?OW" "Channels ?out = Filters ker"
    "length (Data ?out) = nat (?OH * ?OW * Filters ker)"
    by (simp_all add: conv_result_def conv_out0_def fold_put_length)
  have "Get ?out f i j = Some (Data ?out ! flat ?OH ?OW (f, i, j))"
    using Get_in_box[of f i j ?out] q d by simp
  also have "Data ?out ! flat ?OH ?OW (f, i, j)
             = conv_value (padded_input input cfg) ker bias cfg (f, i, j)"
    unfolding conv_result_def
    by (simp add: fold_put_hit[where C = "Filters ker"] q conv_out0_def)
  finally show ?thesis .
qed

section \<open>The three execution strategies\<close>

lemma approx_equal_refl: "0 \<le> tol \<Longrightarrow> approx_equal tol a a"
  by (simp add: approx_equal_def list_all2_same)

text \<open>
  C2.  On a valid input (the invariants of the data model hold and the validator
  accepts), with at least one CPU, any schedule of the workers and a block size
  that is not negative, the direct, the filter-parallel and the tiled convolution
  all return, and their outputs are equivalent within \<open>1e-6\<close> per element.  They
  are in fact equal: each strategy accumulates every output element in the same
  order, and the lemmas behind this theorem hold for any carrier with \<open>0\<close>, \<open>+\<close>
  and \<open>*\<close>, without any algebraic law.
\<close>

theorem conv_strategies_equivalent:
  fixes input :: "real FeatureMap"
  assumes "wf_FeatureMap input" and "wf_Kernel kern"
    and "validateConv2DInputs (Some input) (Some kern) bias config = None"
    and "1 \<le> numCPU"
    and "worker_schedule (Filters kern) (out_dim (Height input) kern config)
           (out_dim (Width input) kern config) schedule"
    and "0 \<le> BlockSize ce"
  shows "\<exists>serial parallel tiled.
           Conv2D (Some input) (Some kern) bias config = Returned serial
         \<and> Conv2DParallel numCPU schedule (Some input) (Some kern) bias config = Returned parallel
         \<and> conv2DTiled ce (Some input) (Some kern) bias config = Returned tiled
         \<and> approx_equal (1 / 10 ^ 6) serial parallel
         \<and> approx_equal (1 / 10 ^ 6) serial tiled
         \<and> parallel = serial \<and> tiled = serial"
proof -
  have ready: "conv_ready input kern bias config"
    using assms(1-3) by (simp add: conv_ready_def)
  have "approx_equal (1 / 10 ^ 6) (conv_result input kern bias config)
          (conv_result input kern bias config)"
    by (rule approx_equal_refl) simp
  then show ?thesis
    using Conv2D_serial[OF ready] Conv2DParallel_result[OF ready assms(4,5)]
      conv2DTiled_result[OF ready assms(6)]
    by blast
qed

theorem conv_strategies_equivalent_witness:
  "\<exists>serial parallel tiled.
      Conv2D (Some \<lparr>Height = 1, Width = 2, Channels = 1, Data = [5, 7]\<rparr>)
        (Some \<lparr>Size = 1, KChannels = 1, Filters = 2, Weights = [2, 3]\<rparr>) [1, 0]
        \<lparr>Padding = 0, Stride = 1\<rparr> = Returned serial
    \<and> Conv2DParallel 4 [(1, 0, 0), (0, 0, 0), (0, 0, 1), (1, 0, 1)]
        (Some \<lparr>Height = 1, Width = 2, Channels = 1, Data = [5, 7]\<rparr>)
        (Some \<lparr>Size = 1, KChannels = 1, Filters = 2, Weights = [2, 3]\<rparr>) [1, 0]
        \<lparr>Padding = 0, Stride = 1\<rparr> = Returned parallel
    \<and> conv2DTiled NewConvolutionEngine
        (Some \<lparr>Height = 1, Width = 2, Channels = 1, Data = [5, 7]\<rparr>)
        (Some \<lparr>Size = 1, KChannels = 1, Filters = 2, Weights = [2, 3]\<rparr>) [1, 0]
        \<lparr>Padding = 0, Stride = 1\<rparr> = Returned tiled
    \<and> approx_equal (1 / 10 ^ 6) serial parallel
    \<and> approx_equal (1 / 10 ^ 6) serial tiled
    \<and> parallel = serial \<and> tiled = serial"
proof -
  let ?input = "\<lparr>Height = 1, Width = 2, Channels = 1, Data = [5, 7 :: real]\<rparr>"
  let ?kern = "\<lparr>Size = 1, KChannels = 1, Filters = 2, Weights = [2, 3 :: real]\<rparr>"
  let ?config = "\<lparr>Padding = 0, Stride = 1\<rparr>"
  have 1: "wf_FeatureMap ?input" by (simp add: wf_FeatureMap_def)
  have 2: "wf_Kernel ?kern" by (simp add: wf_Kernel_def)
  have 3: "validateConv2DInputs (Some ?input) (Some ?kern) [1, 0] ?config = None"
    by (simp add: validateConv2DInputs_def)
  have 4: "(1 :: int) \<le> 4" by simp
  have 5: "worker_schedule (Filters ?kern) (out_dim (Height ?input) ?kern ?config)
             (out_dim (Width ?input) ?kern ?config) [(1, 0, 0), (0, 0, 0), (0, 0, 1), (1, 0, 1)]"
    by (simp add: worker_schedule_def out_dim_def upto.simps)
  have 6: "0 \<le> BlockSize NewConvolutionEngine" by (simp add: NewConvolutionEngine_def)
  show ?thesis by (rule conv_strategies_equivalent[OF 1 2 3 4 5 6])
qed

section \<open>The direct form\<close>

text \<open>
  C1.  For a non-nil input and kernel that satisfy the invariants of the data
  model, with kernel channels equal to input channels, a bias of length
  \<open>filters\<close>, padding at least 0, a positive stride and a padded input at least as
  large as the kernel, \<^verbatim>\<open>Conv2D\<close> returns a feature map with
  \<open>outH = (inH + 2*padding - size) / stride + 1\<close>, \<open>outW\<close> alike and \<open>filters\<close>
  channels, whose element \<open>(f, i, j)\<close> is \<open>bias[f]\<close> plus the sum over \<open>c\<close>, \<open>m\<close>, \<open>n\<close>
  of \<open>paddedInput[c, i*stride+m, j*stride+n] * kernel[f, c, m, n]\<close>.  The sum is
  stated in a commutative semiring (the idealisation of \<^verbatim>\<open>float32\<close>).
\<close>

theorem Conv2D_direct_form:
  fixes input :: "('a::comm_semiring_0) FeatureMap"
  assumes "wf_FeatureMap input" and "wf_Kernel kern"
    and "KChannels kern = Channels input" and "int (length bias) = Filters kern"
    and "0 \<le> Padding config" and "0 < Stride config"
    and "Size kern \<le> Height input + 2 * Padding config"
    and "Size kern \<le> Width input + 2 * Padding config"
  shows "\<exists>out. Conv2D (Some input) (Some kern) bias config = Returned out
         \<and> Height out = (Height input + 2 * Padding config - Size kern) div Stride config + 1
         \<and> Width out = (Width input + 2 * Padding config - Size kern) div Stride config + 1
         \<and> Channels out = Filters kern
         \<and> (\<forall>f i j. 0 \<le> f \<and> f < Filters kern \<and> 0 \<le> i \<and> i < Height out
                    \<and> 0 \<le> j \<and> j < Width out \<longrightarrow>
                Get out f i j =
                  Some (bias ! nat f
                        + (\<Sum>c = 0..<Channels input. \<Sum>m = 0..<Size kern. \<Sum>n = 0..<Size kern.
                             padded_at input (Padding config) c
                               (i * Stride config + m) (j * Stride config + n)
                             * weight_at kern f c m n)))"
proof -
  have ready: "conv_ready input kern bias config"
    using assms by (simp add: conv_ready_def validateConv2DInputs_None_iff)
  let ?out = "conv_result input kern bias config"
  let ?OH = "out_dim (Height input) kern config" and ?OW = "out_dim (Width input) kern config"
  have d: "Height ?out = ?OH" "Width ?out = ?OW" "Channels ?out = Filters kern"
    by (simp_all add: conv_result_def conv_out0_def)
  have elem: "Get ?out f i j =
                  Some (bias ! nat f
                        + (\<Sum>c = 0..<Channels input. \<Sum>m = 0..<Size kern. \<Sum>n = 0..<Size kern.
                             padded_at input (Padding config) c
                               (i * Stride config + m) (j * Stride config + n)
                             * weight_at kern f c m n))"
    if r: "0 \<le> f" "f < Filters kern" "0 \<le> i" "i < ?OH" "0 \<le> j" "j < ?OW" for f i j
  proof -
    have q: "(f, i, j) \<in> set (box (Filters kern) ?OH ?OW)" using r by (simp add: set_box)
    have hi: "i * Stride config + Size kern \<le> Height input + 2 * Padding config"
      by (rule window_fits[OF assms(6,7) r(3,4)])
    have wj: "j * Stride config + Size kern \<le> Width input + 2 * Padding config"
      by (rule window_fits[OF assms(6,8) r(5,6)])
    have pe: "elem_at (padded_input input config) c (i * Stride config + m) (j * Stride config + n)
              = padded_at input (Padding config) c (i * Stride config + m) (j * Stride config + n)"
      if "c \<in> {0..<Channels input}" "m \<in> {0..<Size kern}" "n \<in> {0..<Size kern}" for c m n
      using that hi wj r(3,5) assms(6)
      by (intro padded_elem_at[OF assms(1,5)]) simp_all
    have "conv_acc (padded_input input config) kern config f i j
          = (\<Sum>c = 0..<Channels input. \<Sum>m = 0..<Size kern. \<Sum>n = 0..<Size kern.
               padded_at input (Padding config) c (i * Stride config + m) (j * Stride config + n)
               * weight_at kern f c m n)"
      unfolding conv_acc_sum assms(3)
      by (intro sum.cong refl) (simp add: pe)
    then show ?thesis
      by (simp add: conv_result_Get[OF q] conv_value_def add.commute)
  qed
  show ?thesis
    using Conv2D_serial[OF ready] d elem
    by (intro exI[of _ ?out]) (simp add: out_dim_def)
qed

theorem Conv2D_direct_form_witness:
  "\<exists>out. Conv2D (Some \<lparr>Height = 2, Width = 2, Channels = 1, Data = [1, 2, 3, 4 :: int]\<rparr>)
            (Some \<lparr>Size = 3, KChannels = 1, Filters = 1, Weights = [0, 0, 0, 0, 1, 0, 0, 0, 0]\<rparr>)
            [10] \<lparr>Padding = 1, Stride = 1\<rparr> = Returned out
        \<and> Height out = 2 \<and> Width out = 2 \<and> Channels out = 1"
proof -
  let ?input = "\<lparr>Height = 2, Width = 2, Channels = 1, Data = [1, 2, 3, 4 :: int]\<rparr>"
  let ?kern = "\<lparr>Size = 3, KChannels = 1, Filters = 1, Weights = [0, 0, 0, 0, 1, 0, 0, 0, 0 :: int]\<rparr>"
  let ?config = "\<lparr>Padding = 1, Stride = 1\<rparr>"
  have 1: "wf_FeatureMap ?input" by (simp add: wf_FeatureMap_def)
  have 2: "wf_Kernel ?kern" by (simp add: wf_Kernel_def)
  have 3: "KChannels ?kern = Channels ?input" "int (length [10 :: int]) = Filters ?kern"
    "0 \<le> Padding ?config" "0 < Stride ?config"
    "Size ?kern \<le> Height ?input + 2 * Padding ?config"
    "Size ?kern \<le> Width ?input + 2 * Padding ?config"
    by simp_all
  from Conv2D_direct_form[OF 1 2 3]
  obtain out where "Conv2D (Some ?input) (Some ?kern) [10] ?config = Returned out"
    "Height out = (Height ?input + 2 * Padding ?config - Size ?kern) div Stride ?config + 1"
    "Width out = (Width ?input + 2 * Padding ?config - Size ?kern) div Stride ?config + 1"
    "Channels out = Filters ?kern"
    by blast
  then show ?thesis by (intro exI[of _ out]) simp
qed

section \<open>Depthwise convolution\<close>

lemma conv_prepare_dims:
  fixes input :: "('a::zero) FeatureMap"
  assumes wf: "wf_FeatureMap input" and F: "0 \<le> Filters ker"
    and p: "0 \<le> Padding cfg" and st: "0 < Stride cfg"
    and fh: "Size ker \<le> Height input + 2 * Padding cfg"
    and fw: "Size ker \<le> Width input + 2 * Padding cfg"
  shows "conv_prepare input ker cfg = Some (padded_input input cfg, conv_out0 input ker cfg)"
proof -
  note pi = padded_input_props[OF wf p]
  have qh: "go_div (Height input + 2 * Padding cfg - Size ker) (Stride cfg)
            = Some ((Height input + 2 * Padding cfg - Size ker) div Stride cfg)"
    using st fh by (simp add: go_div_def go_quot_nonneg)
  have qw: "go_div (Width input + 2 * Padding cfg - Size ker) (Stride cfg)
            = Some ((Width input + 2 * Padding cfg - Size ker) div Stride cfg)"
    using st fw by (simp add: go_div_def go_quot_nonneg)
  have oh: "1 \<le> out_dim (Height input) ker cfg" using st fh by (intro out_dim_positive) simp_all
  have ow: "1 \<le> out_dim (Width input) ker cfg" using st fw by (intro out_dim_positive) simp_all
  have nn: "0 \<le> out_dim (Height input) ker cfg * out_dim (Width input) ker cfg * Filters ker"
    using oh ow F by simp
  have new: "NewFeatureMap (out_dim (Height input) ker cfg) (out_dim (Width input) ker cfg) (Filters ker)
             = Some (conv_out0 input ker cfg)"
    using NewFeatureMap_Some[OF nn] by (simp add: conv_out0_def)
  show ?thesis
    unfolding conv_prepare_def pi(1)
    using qh qw new by (simp add: pi(2,3) out_dim_def Let_def)
qed

lemma depthwise_sum_Some:
  fixes pin :: "('a::{zero,plus,times}) FeatureMap"
  assumes wf: "wf_FeatureMap pin" and wfk: "wf_Kernel ker"
    and c: "0 \<le> c" "c < Channels pin" "c < Filters ker" "c < KChannels ker"
    and st: "0 \<le> Stride cfg"
    and i: "0 \<le> i" "i * Stride cfg + Size ker \<le> Height pin"
    and j: "0 \<le> j" "j * Stride cfg + Size ker \<le> Width pin"
  shows "for_each [0..Size ker - 1] (\<lambda>m. for_each [0..Size ker - 1] (\<lambda>n sum.
           Option.bind (GetUnsafe pin c (i * Stride cfg + m) (j * Stride cfg + n))
             (\<lambda>inputVal. Option.bind (GetWeightUnsafe ker c c m n)
                (\<lambda>kernelWeight. Some (sum + inputVal * kernelWeight))))) 0
         = Some (depthwise_acc pin ker cfg c i j)"
proof -
  let ?g = "\<lambda>m n (sum :: 'a). sum + elem_at pin c (i * Stride cfg + m) (j * Stride cfg + n)
                   * weight_at ker c c m n"
  let ?b = "\<lambda>m n (sum :: 'a). Option.bind (GetUnsafe pin c (i * Stride cfg + m) (j * Stride cfg + n))
               (\<lambda>inputVal. Option.bind (GetWeightUnsafe ker c c m n)
                  (\<lambda>kernelWeight. Some (sum + inputVal * kernelWeight)))"
  have elem: "?b m n s = Some (?g m n s)"
    if "m \<in> set [0..Size ker - 1]" "n \<in> set [0..Size ker - 1]" for m n s
  proof -
    have r: "0 \<le> m" "m < Size ker" "0 \<le> n" "n < Size ker" using that by simp_all
    have h: "0 \<le> i * Stride cfg + m" "i * Stride cfg + m < Height pin"
      using r i st by simp_all
    have w: "0 \<le> j * Stride cfg + n" "j * Stride cfg + n < Width pin"
      using r j st by simp_all
    have g: "GetUnsafe pin c (i * Stride cfg + m) (j * Stride cfg + n)
             = Some (elem_at pin c (i * Stride cfg + m) (j * Stride cfg + n))"
      unfolding elem_at_def by (rule GetUnsafe_Some[OF wf c(1,2) h w])
    have k: "GetWeightUnsafe ker c c m n = Some (weight_at ker c c m n)"
      unfolding weight_at_def by (rule GetWeightUnsafe_Some[OF wfk c(1,3) c(1,4) r])
    show ?thesis by (simp add: g k)
  qed
  have lvl_n: "for_each [0..Size ker - 1] (?b m) s = Some (fold (?g m) [0..Size ker - 1] s)"
    if "m \<in> set [0..Size ker - 1]" for m s
    by (rule for_each_pure) (use that elem in blast)
  have "for_each [0..Size ker - 1] (\<lambda>m. for_each [0..Size ker - 1] (?b m)) 0
        = Some (fold (\<lambda>m. fold (?g m) [0..Size ker - 1]) [0..Size ker - 1] 0)"
    by (rule for_each_pure) (use lvl_n in blast)
  then show ?thesis by (simp add: depthwise_acc_def)
qed

lemma DepthwiseConv2D_result:
  fixes input :: "('a::{zero,plus,times}) FeatureMap"
  assumes wf: "wf_FeatureMap input" and wfk: "wf_Kernel ker"
    and fc: "Filters ker = Channels input" and kc: "Channels input \<le> KChannels ker"
    and bl: "int (length bias) = Filters ker"
    and p: "0 \<le> Padding cfg" and st: "0 < Stride cfg"
    and fh: "Size ker \<le> Height input + 2 * Padding cfg"
    and fw: "Size ker \<le> Width input + 2 * Padding cfg"
  shows "DepthwiseConv2D input ker bias cfg = Returned (depthwise_result input ker bias cfg)"
proof -
  let ?pin = "padded_input input cfg"
  let ?OH = "out_dim (Height input) ker cfg" and ?OW = "out_dim (Width input) ker cfg"
  let ?F = "Filters ker"
  let ?L = "nat (?OH * ?OW * ?F)"
  let ?val = "depthwise_value ?pin ker bias cfg"
  have F: "0 \<le> ?F" using wfk by (simp add: wf_Kernel_def)
  note pi = padded_input_props[OF wf p]
  note prep = conv_prepare_dims[OF wf F p st fh fw]
  let ?body = "\<lambda>c i j output.
      Option.bind (for_each [0..Size ker - 1] (\<lambda>m. for_each [0..Size ker - 1] (\<lambda>n sum.
           Option.bind (GetUnsafe ?pin c (i * Stride cfg + m) (j * Stride cfg + n))
             (\<lambda>inputVal. Option.bind (GetWeightUnsafe ker c c m n)
                (\<lambda>kernelWeight. Some (sum + inputVal * kernelWeight))))) 0)
        (\<lambda>sum. Option.bind (slice_get bias c) (\<lambda>b. SetUnsafe output c i j (sum + b)))"
  have loop: "for_each [0..?F - 1] (\<lambda>c. for_each [0..?OH - 1] (\<lambda>i. for_each [0..?OW - 1] (?body c i)))
                (conv_out0 input ker cfg)
        = (if \<forall>p\<in>set (List.product [0..?F - 1] (List.product [0..?OH - 1] [0..?OW - 1])). True
           then Some ((conv_out0 input ker cfg)\<lparr>Data :=
                  fold (put ?OH ?OW ?val)
                    (List.product [0..?F - 1] (List.product [0..?OH - 1] [0..?OW - 1]))
                    (Data (conv_out0 input ker cfg))\<rparr>)
           else None)"
  proof (rule for_each3_Data_if[where H = ?OH and W = ?OW and C = ?F and L = ?L])
    show "same_shape ?OH ?OW ?F ?L (conv_out0 input ker cfg)" by (rule conv_out0_shape)
  next
    fix q :: "int \<times> int \<times> int" and d :: "'a list"
    assume "length d = ?L"
    then show "length (put ?OH ?OW ?val q d) = ?L" by (simp add: put_length)
  next
    fix c i j and fm :: "'a FeatureMap"
    assume m: "c \<in> set [0..?F - 1]" "i \<in> set [0..?OH - 1]" "j \<in> set [0..?OW - 1]"
      and sh: "same_shape ?OH ?OW ?F ?L fm"
    have r: "0 \<le> c" "c < ?F" "0 \<le> i" "i < ?OH" "0 \<le> j" "j < ?OW" using m by simp_all
    have q: "(c, i, j) \<in> set (box ?F ?OH ?OW)" using r by (simp add: set_box)
    have hi: "i * Stride cfg + Size ker \<le> Height ?pin"
      using window_fits[OF st fh r(3,4)] by (simp add: pi(2))
    have wj: "j * Stride cfg + Size ker \<le> Width ?pin"
      using window_fits[OF st fw r(5,6)] by (simp add: pi(3))
    have cc: "c < Channels ?pin" "c < KChannels ker" using r(2) fc kc by (simp_all add: pi(4))
    have st0: "0 \<le> Stride cfg" using st by simp
    note s = depthwise_sum_Some[OF pi(5) wfk r(1) cc(1) r(2) cc(2) st0 r(3) hi r(5) wj]
    have b: "slice_get bias c = Some (bias ! nat c)"
      using r(1,2) bl by (simp add: slice_get_def)
    have w: "SetUnsafe fm c i j (depthwise_acc ?pin ker cfg c i j + bias ! nat c)
             = Some (fm\<lparr>Data := put ?OH ?OW ?val (c, i, j) (Data fm)\<rparr>)"
      unfolding SetUnsafe_in_box[OF sh q] by (simp add: put_def depthwise_value_def)
    show "?body c i j fm
          = (if True then Some (fm\<lparr>Data := put ?OH ?OW ?val (c, i, j) (Data fm)\<rparr>) else None)"
      by (simp add: s b w)
  qed
  have "for_each [0..?F - 1] (\<lambda>c. for_each [0..?OH - 1] (\<lambda>i. for_each [0..?OW - 1] (?body c i)))
                (conv_out0 input ker cfg) = Some (depthwise_result input ker bias cfg)"
    unfolding loop by (simp add: depthwise_result_def box_def)
  then show ?thesis
    using fc
    by (simp add: DepthwiseConv2D_def prep of_option_def Let_def conv_out0_def
        cong del: if_weak_cong)
qed

lemma depthwise_acc_sum:
  fixes pin :: "('a::comm_semiring_0) FeatureMap"
  shows "depthwise_acc pin ker cfg c i j
         = (\<Sum>m = 0..<Size ker. \<Sum>n = 0..<Size ker.
              elem_at pin c (i * Stride cfg + m) (j * Stride cfg + n) * weight_at ker c c m n)"
  by (simp add: depthwise_acc_def fold_add_sum_fun int_interval)

lemma DepthwiseConv2D_formula:
  fixes input :: "('a::comm_semiring_0) FeatureMap"
  assumes wf: "wf_FeatureMap input" and wfk: "wf_Kernel ker"
    and fc: "Filters ker = Channels input" and kc: "Channels input \<le> KChannels ker"
    and bl: "int (length bias) = Filters ker"
    and p: "0 \<le> Padding cfg" and st: "0 < Stride cfg"
    and fh: "Size ker \<le> Height input + 2 * Padding cfg"
    and fw: "Size ker \<le> Width input + 2 * Padding cfg"
  shows "DepthwiseConv2D input ker bias cfg = Returned (depthwise_result input ker bias cfg)"
    and "Height (depthwise_result input ker bias cfg) = out_dim (Height input) ker cfg"
    and "Width (depthwise_result input ker bias cfg) = out_dim (Width input) ker cfg"
    and "Channels (depthwise_result input ker bias cfg) = Channels input"
    and "\<And>c i j. 0 \<le> c \<Longrightarrow> c < Channels input \<Longrightarrow> 0 \<le> i \<Longrightarrow> i < out_dim (Height input) ker cfg \<Longrightarrow>
           0 \<le> j \<Longrightarrow> j < out_dim (Width input) ker cfg \<Longrightarrow>
           Get (depthwise_result input ker bias cfg) c i j = Some (depthwise_at input ker bias cfg c i j)"
proof -
  let ?out = "depthwise_result input ker bias cfg"
  let ?OH = "out_dim (Height input) ker cfg" and ?OW = "out_dim (Width input) ker cfg"
  show "DepthwiseConv2D input ker bias cfg = Returned ?out"
    by (rule DepthwiseConv2D_result[OF assms])
  show d: "Height ?out = ?OH" "Width ?out = ?OW" "Channels ?out = Channels input"
    by (simp_all add: depthwise_result_def conv_out0_def fc)
  have len: "length (Data ?out) = nat (?OH * ?OW * Filters ker)"
    by (simp add: depthwise_result_def conv_out0_def fold_put_length)
  fix c i j
  assume r: "0 \<le> c" "c < Channels input" "0 \<le> i" "i < ?OH" "0 \<le> j" "j < ?OW"
  have q: "(c, i, j) \<in> set (box (Filters ker) ?OH ?OW)" using r fc by (simp add: set_box)
  have "Get ?out c i j = Some (Data ?out ! flat ?OH ?OW (c, i, j))"
    using Get_in_box[of c i j ?out] q d len fc by simp
  also have "Data ?out ! flat ?OH ?OW (c, i, j)
             = depthwise_value (padded_input input cfg) ker bias cfg (c, i, j)"
    unfolding depthwise_result_def
    by (simp add: fold_put_hit[where C = "Filters ker"] q conv_out0_def)
  also have "\<dots> = depthwise_at input ker bias cfg c i j"
  proof -
    have hi: "i * Stride cfg + Size ker \<le> Height input + 2 * Padding cfg"
      by (rule window_fits[OF st fh r(3,4)])
    have wj: "j * Stride cfg + Size ker \<le> Width input + 2 * Padding cfg"
      by (rule window_fits[OF st fw r(5,6)])
    have pe: "elem_at (padded_input input cfg) c (i * Stride cfg + m) (j * Stride cfg + n)
              = padded_at input (Padding cfg) c (i * Stride cfg + m) (j * Stride cfg + n)"
      if "m \<in> {0..<Size ker}" "n \<in> {0..<Size ker}" for m n
      using that hi wj r st
      by (intro padded_elem_at[OF wf p]) simp_all
    have "depthwise_acc (padded_input input cfg) ker cfg c i j
          = (\<Sum>m = 0..<Size ker. \<Sum>n = 0..<Size ker.
               padded_at input (Padding cfg) c (i * Stride cfg + m) (j * Stride cfg + n)
               * weight_at ker c c m n)"
      unfolding depthwise_acc_sum
      by (intro sum.cong refl) (simp add: pe)
    then show ?thesis by (simp add: depthwise_value_def depthwise_at_def add.commute)
  qed
  finally show "Get ?out c i j = Some (depthwise_at input ker bias cfg c i j)" .
qed

lemma Get_valid:
  assumes "wf_FeatureMap fm" "0 \<le> c" "c < Channels fm" "0 \<le> h" "h < Height fm" "0 \<le> w" "w < Width fm"
  shows "Get fm c h w = Some (Data fm ! nat (c * Height fm * Width fm + h * Width fm + w))"
  using GetUnsafe_Some[OF assms] assms
  by (simp add: Get_def GetUnsafe_def isValidIndex_def)

lemma depthwise_at_cong:
  fixes input input' :: "('a::comm_semiring_0) FeatureMap"
  assumes wf: "wf_FeatureMap input" "wf_FeatureMap input'"
    and dims: "Height input' = Height input" "Width input' = Width input" "Size ker' = Size ker"
    and c: "0 \<le> c" "c < Channels input" "c < Channels input'"
    and same_in: "\<And>h w. 0 \<le> h \<Longrightarrow> h < Height input \<Longrightarrow> 0 \<le> w \<Longrightarrow> w < Width input \<Longrightarrow>
                    Get input' c h w = Get input c h w"
    and same_w: "\<And>m n. 0 \<le> m \<Longrightarrow> m < Size ker \<Longrightarrow> 0 \<le> n \<Longrightarrow> n < Size ker \<Longrightarrow>
                    weight_at ker' c c m n = weight_at ker c c m n"
    and same_b: "bias' ! nat c = bias ! nat c"
  shows "depthwise_at input' ker' bias' cfg c i j = depthwise_at input ker bias cfg c i j"
proof -
  have pa: "padded_at input' (Padding cfg) c h w = padded_at input (Padding cfg) c h w" for h w
  proof (cases "Padding cfg \<le> h \<and> h < Height input + Padding cfg
                \<and> Padding cfg \<le> w \<and> w < Width input + Padding cfg")
    case True
    then have r: "0 \<le> h - Padding cfg" "h - Padding cfg < Height input"
      "0 \<le> w - Padding cfg" "w - Padding cfg < Width input" by simp_all
    have "Get input' c (h - Padding cfg) (w - Padding cfg) = Get input c (h - Padding cfg) (w - Padding cfg)"
      by (rule same_in[OF r])
    then have "Data input' ! nat (c * Height input * Width input + (h - Padding cfg) * Width input
                                   + (w - Padding cfg))
               = Data input ! nat (c * Height input * Width input + (h - Padding cfg) * Width input
                                   + (w - Padding cfg))"
      using Get_valid[OF wf(1) c(1,2) r] Get_valid[OF wf(2) c(1,3), of "h - Padding cfg" "w - Padding cfg"]
        r dims by simp
    then show ?thesis using True dims by (simp add: padded_at_def)
  next
    case False
    then show ?thesis using dims by (auto simp: padded_at_def)
  qed
  show ?thesis
    unfolding depthwise_at_def dims pa same_b
    by (intro arg_cong2[where f = "(+)"] sum.cong refl) (simp add: same_w)
qed

text \<open>
  C7, as the code has it.  The claim holds when the kernel has at least as many
  channels as the input: then, for an input and a kernel that satisfy the
  invariants of the data model, with \<open>kernel.filters = input.channels\<close>, a bias of
  length \<open>filters\<close> and a valid configuration, \<^verbatim>\<open>DepthwiseConv2D\<close> returns an output
  whose element \<open>(c, i, j)\<close> is \<open>bias[c]\<close> plus the sum over \<open>m\<close>, \<open>n\<close> of
  \<open>paddedInput[c, i*stride+m, j*stride+n] * kernel[c, c, m, n]\<close>; and this value is
  the same for any other input, kernel and bias that agree with the given ones on
  channel \<open>c\<close> of the input, on the weights at \<open>(c, c, m, n)\<close> and on \<open>bias[c]\<close>.
\<close>

theorem DepthwiseConv2D_own_channel:
  fixes input :: "('a::comm_semiring_0) FeatureMap"
  assumes "wf_FeatureMap input" and "wf_Kernel kern"
    and "Filters kern = Channels input" and "Channels input \<le> KChannels kern"
    and "int (length bias) = Filters kern"
    and "0 \<le> Padding config" and "0 < Stride config"
    and "Size kern \<le> Height input + 2 * Padding config"
    and "Size kern \<le> Width input + 2 * Padding config"
  shows "\<exists>out. DepthwiseConv2D input kern bias config = Returned out
         \<and> Height out = (Height input + 2 * Padding config - Size kern) div Stride config + 1
         \<and> Width out = (Width input + 2 * Padding config - Size kern) div Stride config + 1
         \<and> Channels out = Channels input
         \<and> (\<forall>c i j. 0 \<le> c \<and> c < Channels input \<and> 0 \<le> i \<and> i < Height out
                    \<and> 0 \<le> j \<and> j < Width out \<longrightarrow>
                Get out c i j = Some (depthwise_at input kern bias config c i j))
         \<and> (\<forall>(input' :: 'a FeatureMap) kern' bias' c i j.
                wf_FeatureMap input' \<and> Height input' = Height input \<and> Width input' = Width input
                \<and> Size kern' = Size kern \<and> 0 \<le> c \<and> c < Channels input \<and> c < Channels input'
                \<and> (\<forall>h w. 0 \<le> h \<and> h < Height input \<and> 0 \<le> w \<and> w < Width input \<longrightarrow>
                       Get input' c h w = Get input c h w)
                \<and> (\<forall>m n. 0 \<le> m \<and> m < Size kern \<and> 0 \<le> n \<and> n < Size kern \<longrightarrow>
                       weight_at kern' c c m n = weight_at kern c c m n)
                \<and> bias' ! nat c = bias ! nat c \<longrightarrow>
                depthwise_at input' kern' bias' config c i j
                  = depthwise_at input kern bias config c i j)"
proof -
  note f = DepthwiseConv2D_formula[OF assms]
  let ?out = "depthwise_result input kern bias config"
  have elems: "\<forall>c i j. 0 \<le> c \<and> c < Channels input \<and> 0 \<le> i \<and> i < Height ?out
                    \<and> 0 \<le> j \<and> j < Width ?out \<longrightarrow>
                Get ?out c i j = Some (depthwise_at input kern bias config c i j)"
    using f(5) by (simp add: f(2,3))
  have cong: "depthwise_at input' kern' bias' config c i j = depthwise_at input kern bias config c i j"
    if "wf_FeatureMap input' \<and> Height input' = Height input \<and> Width input' = Width input
                \<and> Size kern' = Size kern \<and> 0 \<le> c \<and> c < Channels input \<and> c < Channels input'
                \<and> (\<forall>h w. 0 \<le> h \<and> h < Height input \<and> 0 \<le> w \<and> w < Width input \<longrightarrow>
                       Get input' c h w = Get input c h w)
                \<and> (\<forall>m n. 0 \<le> m \<and> m < Size kern \<and> 0 \<le> n \<and> n < Size kern \<longrightarrow>
                       weight_at kern' c c m n = weight_at kern c c m n)
                \<and> bias' ! nat c = bias ! nat c"
    for input' :: "'a FeatureMap" and kern' bias' c i j
    using that by (intro depthwise_at_cong[OF assms(1)]) blast+
  show ?thesis
    using f(1) f(2,3,4) elems cong
    by (intro exI[of _ ?out] conjI) (simp_all add: out_dim_def)
qed

theorem DepthwiseConv2D_own_channel_witness:
  "\<exists>out. DepthwiseConv2D \<lparr>Height = 1, Width = 1, Channels = 2, Data = [1, 2 :: int]\<rparr>
            \<lparr>Size = 1, KChannels = 2, Filters = 2, Weights = [3, 4, 5, 6]\<rparr> [10, 20]
            \<lparr>Padding = 0, Stride = 1\<rparr> = Returned out
        \<and> Height out = 1 \<and> Width out = 1 \<and> Channels out = 2"
proof -
  let ?input = "\<lparr>Height = 1, Width = 1, Channels = 2, Data = [1, 2 :: int]\<rparr>"
  let ?kern = "\<lparr>Size = 1, KChannels = 2, Filters = 2, Weights = [3, 4, 5, 6 :: int]\<rparr>"
  let ?config = "\<lparr>Padding = 0, Stride = 1\<rparr>"
  have 1: "wf_FeatureMap ?input" by (simp add: wf_FeatureMap_def)
  have 2: "wf_Kernel ?kern" by (simp add: wf_Kernel_def)
  have 3: "Filters ?kern = Channels ?input" "Channels ?input \<le> KChannels ?kern"
    "int (length [10, 20 :: int]) = Filters ?kern"
    "0 \<le> Padding ?config" "0 < Stride ?config"
    "Size ?kern \<le> Height ?input + 2 * Padding ?config"
    "Size ?kern \<le> Width ?input + 2 * Padding ?config"
    by simp_all
  from DepthwiseConv2D_own_channel[OF 1 2 3]
  obtain out where "DepthwiseConv2D ?input ?kern [10, 20] ?config = Returned out"
    "Height out = (Height ?input + 2 * Padding ?config - Size ?kern) div Stride ?config + 1"
    "Width out = (Width ?input + 2 * Padding ?config - Size ?kern) div Stride ?config + 1"
    "Channels out = Channels ?input"
    by blast
  then show ?thesis by (intro exI[of _ out]) simp
qed

text \<open>
  The claim as the specification states it fails for a kernel made of
  single-channel filters: with two input channels and a kernel of two filters of
  one channel each, the read of the weight at \<open>(1, 1, 0, 0)\<close> is out of range and
  the call panics, so no output is produced.
\<close>

theorem DepthwiseConv2D_single_channel_filters_panic:
  "Filters \<lparr>Size = 1, KChannels = 1, Filters = 2, Weights = [3, 4 :: real]\<rparr>
     = Channels \<lparr>Height = 1, Width = 1, Channels = 2, Data = [1, 2 :: real]\<rparr>
   \<and> wf_FeatureMap \<lparr>Height = 1, Width = 1, Channels = 2, Data = [1, 2 :: real]\<rparr>
   \<and> wf_Kernel \<lparr>Size = 1, KChannels = 1, Filters = 2, Weights = [3, 4 :: real]\<rparr>
   \<and> DepthwiseConv2D \<lparr>Height = 1, Width = 1, Channels = 2, Data = [1, 2 :: real]\<rparr>
        \<lparr>Size = 1, KChannels = 1, Filters = 2, Weights = [3, 4]\<rparr> [0, 0]
        \<lparr>Padding = 0, Stride = 1\<rparr> = Panicked RuntimeError"
  by (simp add: wf_FeatureMap_def wf_Kernel_def DepthwiseConv2D_def conv_prepare_def
      go_div_def go_quot_def NewFeatureMap_def make_slice_def of_option_def
      GetUnsafe_def GetWeightUnsafe_def SetUnsafe_def slice_get_def slice_set_def
      upto.simps)

section \<open>Argmax\<close>

lemma argmax_loop_inv:
  assumes "pre \<noteq> []" and "i + 1 = int (length pre)"
    and "0 \<le> mi" and "nat mi < length pre" and "pre ! nat mi = mv"
    and "\<forall>x\<in>set pre. x \<le> mv" and "\<forall>j<nat mi. pre ! j < mv"
  shows "0 \<le> argmax_loop rest i mi mv
       \<and> nat (argmax_loop rest i mi mv) < length (pre @ rest)
       \<and> (\<forall>x\<in>set (pre @ rest). x \<le> (pre @ rest) ! nat (argmax_loop rest i mi mv))
       \<and> (\<forall>j<nat (argmax_loop rest i mi mv).
             (pre @ rest) ! j < (pre @ rest) ! nat (argmax_loop rest i mi mv))"
  using assms
proof (induction rest arbitrary: pre i mi mv)
  case Nil
  then show ?case by simp
next
  case (Cons val rest)
  let ?pre = "pre @ [val]"
  show ?case
  proof (cases "val > mv")
    case True
    have idx: "nat (i + 1) = length pre" using Cons.prems(2) by simp
    have a: "?pre \<noteq> []" "i + 1 + 1 = int (length ?pre)" "0 \<le> i + 1"
      "nat (i + 1) < length ?pre" "?pre ! nat (i + 1) = val"
      using Cons.prems(2) by (simp_all add: idx)
    have b: "\<forall>x\<in>set ?pre. x \<le> val" using Cons.prems(6) True by auto
    have c: "\<forall>j<nat (i + 1). ?pre ! j < val"
    proof (intro allI impI)
      fix j assume "j < nat (i + 1)"
      then have j: "j < length pre" using idx by simp
      then have "pre ! j \<in> set pre" by simp
      then have "pre ! j \<le> mv" using Cons.prems(6) by blast
      then show "?pre ! j < val" using True j by (simp add: nth_append)
    qed
    from Cons.IH[OF a b c] True show ?thesis by simp
  next
    case False
    have a: "?pre \<noteq> []" "i + 1 + 1 = int (length ?pre)" "0 \<le> mi"
      "nat mi < length ?pre" "?pre ! nat mi = mv"
      using Cons.prems by (simp_all add: nth_append)
    have b: "\<forall>x\<in>set ?pre. x \<le> mv" using Cons.prems(6) False by auto
    have c: "\<forall>j<nat mi. ?pre ! j < mv"
      using Cons.prems(4,7) by (simp add: nth_append)
    from Cons.IH[OF a b c] False show ?thesis by simp
  qed
qed

lemma argmax_loop_first_max:
  fixes x :: real and rest :: "real list"
  assumes ys: "ys = x # rest" and k: "k = argmax_loop rest 0 0 x"
  shows "0 \<le> k \<and> nat k < length ys \<and> ys ! nat k = Max (set ys)
       \<and> (\<forall>j<nat k. ys ! j < ys ! nat k)"
proof -
  have app: "[x] @ rest = ys" using ys by simp
  have "0 \<le> argmax_loop rest 0 0 x
       \<and> nat (argmax_loop rest 0 0 x) < length ([x] @ rest)
       \<and> (\<forall>y\<in>set ([x] @ rest). y \<le> ([x] @ rest) ! nat (argmax_loop rest 0 0 x))
       \<and> (\<forall>j<nat (argmax_loop rest 0 0 x).
             ([x] @ rest) ! j < ([x] @ rest) ! nat (argmax_loop rest 0 0 x))"
    by (rule argmax_loop_inv) simp_all
  then have inv: "0 \<le> k" "nat k < length ys" "\<forall>y\<in>set ys. y \<le> ys ! nat k"
    "\<forall>j<nat k. ys ! j < ys ! nat k"
    unfolding app k[symmetric] by blast+
  have "Max (set ys) = ys ! nat k"
  proof (rule Max_eqI)
    show "finite (set ys)" by simp
    show "\<And>y. y \<in> set ys \<Longrightarrow> y \<le> ys ! nat k" using inv(3) by blast
    show "ys ! nat k \<in> set ys" using inv(2) by (rule nth_mem)
  qed
  with inv show ?thesis by presburger
qed

text \<open>
  C9.  Both \<^verbatim>\<open>Argmax\<close> functions return \<open>-1\<close> on the empty slice; on a non-empty slice
  they return an index inside the slice whose element is the maximum of the slice,
  and every element before that index is strictly smaller (the first maximal index
  wins); on \<open>[1,3,2]\<close> the result is \<open>1\<close>.
\<close>

theorem Argmax_first_maximum:
  "Argmax [] = - 1 \<and> tensor_Argmax [] = - 1
   \<and> Argmax [1, 3, 2] = 1 \<and> tensor_Argmax [1, 3, 2] = 1
   \<and> (xs \<noteq> [] \<longrightarrow>
        0 \<le> Argmax xs \<and> nat (Argmax xs) < length xs
        \<and> xs ! nat (Argmax xs) = Max (set xs)
        \<and> (\<forall>j<nat (Argmax xs). xs ! j < xs ! nat (Argmax xs))
        \<and> tensor_Argmax xs = Argmax xs)"
proof -
  have "0 \<le> Argmax xs \<and> nat (Argmax xs) < length xs
        \<and> xs ! nat (Argmax xs) = Max (set xs)
        \<and> (\<forall>j<nat (Argmax xs). xs ! j < xs ! nat (Argmax xs))
        \<and> tensor_Argmax xs = Argmax xs" if "xs \<noteq> []"
  proof -
    from that obtain x rest where xs: "xs = x # rest" by (cases xs) auto
    have k: "Argmax xs = argmax_loop rest 0 0 x" "tensor_Argmax xs = argmax_loop rest 0 0 x"
      by (simp_all add: xs Argmax_def tensor_Argmax_def)
    have same: "tensor_Argmax xs = Argmax xs" using k by simp
    show ?thesis
      using argmax_loop_first_max[OF xs k(1)] same by blast
  qed
  moreover have "Argmax [] = - 1" "tensor_Argmax [] = - 1"
    "Argmax [1, 3, 2] = 1" "tensor_Argmax [1, 3, 2] = 1"
    by (simp_all add: Argmax_def tensor_Argmax_def)
  ultimately show ?thesis by blast
qed

theorem Argmax_first_maximum_witness:
  "[2, 5, 5, 1] \<noteq> ([] :: real list) \<and> Argmax [2, 5, 5, 1] = 1
   \<and> [2, 5, 5, 1] ! nat (Argmax [2, 5, 5, 1]) = Max (set [2, 5, 5, 1 :: real])"
  using Argmax_first_maximum[of "[2, 5, 5, 1]"] by (simp add: Argmax_def)

section \<open>One-hot labels\<close>

lemma onehot_loop_roundtrip:
  assumes "list_all (\<lambda>x. x = 0 \<or> x = 1) v" and "length (filter (\<lambda>x. x = 1) v) = 1"
  shows "0 \<le> onehot_loop v i - i \<and> nat (onehot_loop v i - i) < length v
       \<and> (replicate (length v) 0)[nat (onehot_loop v i - i) := 1] = v"
  using assms
proof (induction v arbitrary: i)
  case Nil
  then show ?case by simp
next
  case (Cons a v)
  show ?case
  proof (cases "a = 1")
    case True
    with Cons.prems have none: "filter (\<lambda>x. x = 1) v = []" by simp
    have "v = replicate (length v) 0"
    proof (rule nth_equalityI)
      show "length v = length (replicate (length v) (0::int))" by simp
    next
      fix j assume j: "j < length v"
      then have m: "v ! j \<in> set v" by simp
      then have "v ! j \<noteq> 1" using none by (auto simp: filter_empty_conv)
      moreover have "v ! j = 0 \<or> v ! j = 1"
        using Cons.prems(1) m by (auto simp: list_all_iff)
      ultimately show "v ! j = replicate (length v) 0 ! j" using j by simp
    qed
    then show ?thesis using True by simp
  next
    case False
    with Cons.prems have a0: "a = 0" and p: "list_all (\<lambda>x. x = 0 \<or> x = 1) v"
      "length (filter (\<lambda>x. x = 1) v) = 1" by auto
    from Cons.IH[OF p, of "i + 1"]
    have ih: "0 \<le> onehot_loop v (i + 1) - (i + 1)"
      "nat (onehot_loop v (i + 1) - (i + 1)) < length v"
      "(replicate (length v) 0)[nat (onehot_loop v (i + 1) - (i + 1)) := 1] = v"
      by simp_all
    have n: "nat (onehot_loop v (i + 1) - i) = Suc (nat (onehot_loop v (i + 1) - (i + 1)))"
      using ih(1) by linarith
    show ?thesis using False a0 ih n by simp
  qed
qed

text \<open>
  C10.  For a valid one-hot vector \<open>v\<close>, converting it to its class index and back with
  \<open>numClasses = len(v)\<close> gives \<open>v\<close> again.
\<close>

theorem one_hot_roundtrip:
  "valid_one_hot v \<Longrightarrow>
   ConvertClassIndexToOneHot (ConvertOneHotToClassIndex v) (int (length v)) = Some v"
proof -
  assume "valid_one_hot v"
  then have p: "list_all (\<lambda>x. x = 0 \<or> x = 1) v" "length (filter (\<lambda>x. x = 1) v) = 1"
    by (simp_all add: valid_one_hot_def)
  from onehot_loop_roundtrip[OF p, of 0]
  have r: "0 \<le> onehot_loop v 0" "nat (onehot_loop v 0) < length v"
    "(replicate (length v) 0)[nat (onehot_loop v 0) := 1] = v" by simp_all
  from r(1,2) have "\<not> (onehot_loop v 0 < 0 \<or> int (length v) \<le> onehot_loop v 0)" by linarith
  then show ?thesis
    using r(3) by (simp add: ConvertClassIndexToOneHot_def ConvertOneHotToClassIndex_def)
qed

theorem one_hot_roundtrip_witness:
  "valid_one_hot [0, 0, 1, 0]
   \<and> ConvertClassIndexToOneHot (ConvertOneHotToClassIndex [0, 0, 1, 0]) (int (length [0, 0, 1, 0 :: int]))
       = Some [0, 0, 1, 0]"
  using one_hot_roundtrip[of "[0, 0, 1, 0]"] by (simp add: valid_one_hot_def)
section \<open>Batch normalization\<close>

lemma wf_length:
  "wf_FeatureMap fm \<Longrightarrow> length (Data fm) = nat (Height fm * Width fm * Channels fm)"
  using nat_int[of "length (Data fm)"] by (simp add: wf_FeatureMap_def)

lemma Clone_wf:
  fixes fm :: "('a::zero) FeatureMap"
  assumes "wf_FeatureMap fm"
  shows "Clone fm = Some fm"
proof -
  have nn: "0 \<le> Height fm * Width fm * Channels fm" using assms by (simp add: wf_FeatureMap_def)
  have len: "length (Data fm) = nat (Height fm * Width fm * Channels fm)"
    using assms by (rule wf_length)
  have "go_copy (replicate (nat (Height fm * Width fm * Channels fm)) 0) (Data fm) = Data fm"
    using len by (simp add: go_copy_def)
  then show ?thesis
    by (simp add: Clone_def NewFeatureMap_Some[OF nn])
qed

lemma fold_inplace_length:
  "length (fold (\<lambda>p d. d[ix p := g p (d ! ix p)]) ps d) = length d"
  by (induction ps arbitrary: d) simp_all

lemma fold_inplace_other:
  "k \<notin> ix ` set ps \<Longrightarrow> fold (\<lambda>p d. d[ix p := g p (d ! ix p)]) ps d ! k = d ! k"
  by (induction ps arbitrary: d) auto

lemma fold_inplace_hit:
  assumes "inj_on ix (set ps)" "distinct ps" "p \<in> set ps" "ix p < length d"
  shows "fold (\<lambda>p d. d[ix p := g p (d ! ix p)]) ps d ! ix p = g p (d ! ix p)"
  using assms
proof (induction ps arbitrary: d)
  case Nil
  then show ?case by simp
next
  case (Cons q ps)
  have inj: "inj_on ix (set ps)" using Cons.prems(1) by (auto simp: inj_on_def)
  have dist: "distinct ps" "q \<notin> set ps" using Cons.prems(2) by simp_all
  let ?d = "d[ix q := g q (d ! ix q)]"
  show ?case
  proof (cases "p = q")
    case True
    have "ix q \<notin> ix ` set ps"
    proof
      assume "ix q \<in> ix ` set ps"
      then obtain r where r: "r \<in> set ps" "ix q = ix r" by auto
      then have "q = r" using Cons.prems(1) by (auto simp: inj_on_def)
      then show False using r(1) dist(2) by simp
    qed
    then have "fold (\<lambda>p d. d[ix p := g p (d ! ix p)]) ps ?d ! ix q = ?d ! ix q"
      by (rule fold_inplace_other)
    then show ?thesis using True Cons.prems(4) by simp
  next
    case False
    then have mem: "p \<in> set ps" using Cons.prems(3) by simp
    have ne: "ix p \<noteq> ix q" using Cons.prems(1,3) False by (auto simp: inj_on_def)
    have "fold (\<lambda>p d. d[ix p := g p (d ! ix p)]) ps ?d ! ix p = g p (?d ! ix p)"
      using Cons.prems(4) by (intro Cons.IH[OF inj dist(1) mem]) simp
    then show ?thesis using ne by simp
  qed
qed

lemma distinct_box: "distinct (box C H W)"
  by (simp add: box_def distinct_product)

lemma bn_params_read:
  assumes "int (length xs) = C" "c \<in> set [0..C - 1]"
  shows "slice_get xs c = Some (xs ! nat c)"
  using assms by (simp add: slice_get_def)

lemma fold_pairs_gen:
  "fold (\<lambda>a. fold (\<lambda>q. u (a, q)) qs) as d = fold u (List.product as qs) d"
  using fold_product[of "\<lambda>a q. u (a, q)" qs as d] by simp

lemma wf_same_shape:
  "wf_FeatureMap fm \<Longrightarrow>
   same_shape (Height fm) (Width fm) (Channels fm) (nat (Height fm * Width fm * Channels fm)) fm"
  using wf_length[of fm] by (simp add: same_shape_def)

lemma BatchNormalize_result:
  assumes wf: "wf_FeatureMap fm"
    and lens: "int (length (BNMean params)) = Channels fm"
      "int (length (BNVariance params)) = Channels fm"
      "int (length (Scale params)) = Channels fm" "int (length (Shift params)) = Channels fm"
  shows "BatchNormalize fm params
         = Returned (fm\<lparr>Data := fold (put (Height fm) (Width fm)
                                    (\<lambda>p. bn_value params (fst p)
                                            (elem_at fm (fst p) (fst (snd p)) (snd (snd p)))))
                       (box (Channels fm) (Height fm) (Width fm)) (Data fm)\<rparr>)"
proof -
  let ?H = "Height fm" and ?W = "Width fm" and ?C = "Channels fm"
  let ?L = "nat (?H * ?W * ?C)"
  let ?val = "\<lambda>p. bn_value params (fst p) (elem_at fm (fst p) (fst (snd p)) (snd (snd p)))"
  let ?rows = "List.product [0..?H - 1] [0..?W - 1]"
  let ?inner = "\<lambda>c h w result. Option.bind (GetUnsafe fm c h w) (\<lambda>val.
       SetUnsafe result c h w (bn_value params c val))"
  let ?body = "\<lambda>c result. Option.bind (slice_get (BNMean params) c) (\<lambda>mean.
       Option.bind (slice_get (BNVariance params) c) (\<lambda>variance.
       Option.bind (slice_get (Scale params) c) (\<lambda>scale.
       Option.bind (slice_get (Shift params) c) (\<lambda>shift.
         for_each [0..?H - 1] (\<lambda>h. for_each [0..?W - 1] (\<lambda>w result.
           Option.bind (GetUnsafe fm c h w) (\<lambda>val.
             SetUnsafe result c h w
               (if scale * ((val - mean) / sqrt (variance + Epsilon params)) + shift < 0 then 0
                else scale * ((val - mean) / sqrt (variance + Epsilon params)) + shift)))) result))))"
  have per_c: "?body c r
      = (if True then Some (r\<lparr>Data := fold (\<lambda>q. put ?H ?W ?val (c, q)) ?rows (Data r)\<rparr>) else None)"
    if c: "c \<in> set [0..?C - 1]" and sh: "same_shape ?H ?W ?C ?L r" for c and r :: "real FeatureMap"
  proof -
    have "for_each [0..?H - 1] (\<lambda>h. for_each [0..?W - 1] (?inner c h)) r
          = (if \<forall>p\<in>set ?rows. True
             then Some (r\<lparr>Data := fold (\<lambda>q. put ?H ?W ?val (c, q)) ?rows (Data r)\<rparr>) else None)"
    proof (rule for_each2_Data_if[where H = ?H and W = ?W and C = ?C and L = ?L])
      show "same_shape ?H ?W ?C ?L r" by (rule sh)
    next
      fix p :: "int \<times> int" and d :: "real list"
      assume "length d = ?L"
      then show "length (put ?H ?W ?val (c, p) d) = ?L" by (simp add: put_length)
    next
      fix h w and r' :: "real FeatureMap"
      assume hw: "h \<in> set [0..?H - 1]" "w \<in> set [0..?W - 1]" and sh': "same_shape ?H ?W ?C ?L r'"
      have q: "(c, h, w) \<in> set (box ?C ?H ?W)" using c hw by (simp add: set_box)
      have g: "GetUnsafe fm c h w = Some (elem_at fm c h w)"
        unfolding elem_at_def using c hw by (intro GetUnsafe_Some[OF wf]) simp_all
      show "?inner c h w r'
            = (if True then Some (r'\<lparr>Data := put ?H ?W ?val (c, (h, w)) (Data r')\<rparr>) else None)"
        by (simp add: g SetUnsafe_in_box[OF sh' q] put_def)
    qed
    then show ?thesis
      using c lens by (simp add: bn_params_read bn_value_def Let_def)
  qed
  have loop: "for_each [0..?C - 1] ?body fm
      = (if \<forall>c\<in>set [0..?C - 1]. True
         then Some (fm\<lparr>Data := fold (\<lambda>c. fold (\<lambda>q. put ?H ?W ?val (c, q)) ?rows) [0..?C - 1] (Data fm)\<rparr>)
         else None)"
  proof (rule for_each_Data_if[where H = ?H and W = ?W and C = ?C and L = ?L])
    show "same_shape ?H ?W ?C ?L fm" by (rule wf_same_shape[OF wf])
  next
    fix c and d :: "real list"
    assume "length d = ?L"
    then show "length (fold (\<lambda>q. put ?H ?W ?val (c, q)) ?rows d) = ?L"
      by (intro fold_preserves_length[where L = ?L]) (simp_all add: put_length)
  next
    fix c and r :: "real FeatureMap"
    assume "c \<in> set [0..?C - 1]" "same_shape ?H ?W ?C ?L r"
    then show "?body c r
      = (if True then Some (r\<lparr>Data := fold (\<lambda>q. put ?H ?W ?val (c, q)) ?rows (Data r)\<rparr>) else None)"
      by (rule per_c)
  qed
  have "for_each [0..?C - 1] ?body fm
        = Some (fm\<lparr>Data := fold (put ?H ?W ?val) (box ?C ?H ?W) (Data fm)\<rparr>)"
    unfolding loop by (simp add: fold_put_pairs box_def)
  then show ?thesis
    using lens(1) by (simp add: BatchNormalize_def Clone_wf[OF wf] of_option_def Let_def)
qed


lemma GetUnsafe_in_box:
  fixes fm :: "'a FeatureMap"
  assumes "same_shape H W C (nat (H * W * C)) fm" "(c, h, w) \<in> set (box C H W)"
  shows "GetUnsafe fm c h w = Some (Data fm ! flat H W (c, h, w))"
proof -
  have r: "0 \<le> c" "c < C" "0 \<le> h" "h < H" "0 \<le> w" "w < W"
    using assms(2) by (simp_all add: set_box)
  note b = flat_index_bound[OF r]
  show ?thesis
    using b assms(1) by (simp add: GetUnsafe_def slice_get_def same_shape_def flat_def)
qed

lemma BatchNormalizeInPlace_result:
  assumes wf: "wf_FeatureMap fm"
    and lens: "int (length (BNMean params)) = Channels fm"
      "int (length (BNVariance params)) = Channels fm"
      "int (length (Scale params)) = Channels fm" "int (length (Shift params)) = Channels fm"
  shows "BatchNormalizeInPlace fm params
         = Returned (fm\<lparr>Data := fold (\<lambda>p d. d[flat (Height fm) (Width fm) p :=
                                        bn_value params (fst p) (d ! flat (Height fm) (Width fm) p)])
                       (box (Channels fm) (Height fm) (Width fm)) (Data fm)\<rparr>)"
proof -
  let ?H = "Height fm" and ?W = "Width fm" and ?C = "Channels fm"
  let ?L = "nat (?H * ?W * ?C)"
  let ?u = "\<lambda>p (d :: real list). d[flat ?H ?W p := bn_value params (fst p) (d ! flat ?H ?W p)]"
  let ?rows = "List.product [0..?H - 1] [0..?W - 1]"
  let ?inner = "\<lambda>c h w r. Option.bind (GetUnsafe r c h w) (\<lambda>val.
       SetUnsafe r c h w (bn_value params c val))"
  let ?body = "\<lambda>c r. Option.bind (slice_get (BNMean params) c) (\<lambda>mean.
       Option.bind (slice_get (BNVariance params) c) (\<lambda>variance.
       Option.bind (slice_get (Scale params) c) (\<lambda>scale.
       Option.bind (slice_get (Shift params) c) (\<lambda>shift.
         for_each [0..Height r - 1] (\<lambda>h. for_each [0..Width r - 1] (\<lambda>w r.
           Option.bind (GetUnsafe r c h w) (\<lambda>val.
             SetUnsafe r c h w
               (if scale * ((val - mean) / sqrt (variance + Epsilon params)) + shift < 0 then 0
                else scale * ((val - mean) / sqrt (variance + Epsilon params)) + shift)))) r))))"
  have per_c: "?body c r
      = (if True then Some (r\<lparr>Data := fold (\<lambda>q. ?u (c, q)) ?rows (Data r)\<rparr>) else None)"
    if c: "c \<in> set [0..?C - 1]" and sh: "same_shape ?H ?W ?C ?L r" for c and r :: "real FeatureMap"
  proof -
    have "for_each [0..?H - 1] (\<lambda>h. for_each [0..?W - 1] (?inner c h)) r
          = (if \<forall>p\<in>set ?rows. True
             then Some (r\<lparr>Data := fold (\<lambda>q. ?u (c, q)) ?rows (Data r)\<rparr>) else None)"
    proof (rule for_each2_Data_if[where H = ?H and W = ?W and C = ?C and L = ?L])
      show "same_shape ?H ?W ?C ?L r" by (rule sh)
    next
      fix p :: "int \<times> int" and d :: "real list"
      assume "length d = ?L"
      then show "length (?u (c, p) d) = ?L" by simp
    next
      fix h w and r' :: "real FeatureMap"
      assume hw: "h \<in> set [0..?H - 1]" "w \<in> set [0..?W - 1]" and sh': "same_shape ?H ?W ?C ?L r'"
      have q: "(c, h, w) \<in> set (box ?C ?H ?W)" using c hw by (simp add: set_box)
      show "?inner c h w r'
            = (if True then Some (r'\<lparr>Data := ?u (c, (h, w)) (Data r')\<rparr>) else None)"
        by (simp add: GetUnsafe_in_box[OF sh' q] SetUnsafe_in_box[OF sh' q] put_def)
    qed
    moreover have "Height r = ?H" "Width r = ?W" using sh by (simp_all add: same_shape_def)
    ultimately show ?thesis
      using c lens by (simp add: bn_params_read bn_value_def Let_def)
  qed
  have loop: "for_each [0..?C - 1] ?body fm
      = (if \<forall>c\<in>set [0..?C - 1]. True
         then Some (fm\<lparr>Data := fold (\<lambda>c. fold (\<lambda>q. ?u (c, q)) ?rows) [0..?C - 1] (Data fm)\<rparr>)
         else None)"
  proof (rule for_each_Data_if[where H = ?H and W = ?W and C = ?C and L = ?L])
    show "same_shape ?H ?W ?C ?L fm" by (rule wf_same_shape[OF wf])
  next
    fix c and d :: "real list"
    assume "length d = ?L"
    then show "length (fold (\<lambda>q. ?u (c, q)) ?rows d) = ?L"
      by (intro fold_preserves_length[where L = ?L]) simp_all
  next
    fix c and r :: "real FeatureMap"
    assume "c \<in> set [0..?C - 1]" "same_shape ?H ?W ?C ?L r"
    then show "?body c r
      = (if True then Some (r\<lparr>Data := fold (\<lambda>q. ?u (c, q)) ?rows (Data r)\<rparr>) else None)"
      by (rule per_c)
  qed
  have "fold (\<lambda>c. fold (\<lambda>q. ?u (c, q)) ?rows) [0..?C - 1] (Data fm) = fold ?u (box ?C ?H ?W) (Data fm)"
    unfolding box_def by (rule fold_pairs_gen)
  then have "for_each [0..?C - 1] ?body fm = Some (fm\<lparr>Data := fold ?u (box ?C ?H ?W) (Data fm)\<rparr>)"
    unfolding loop by simp
  then show ?thesis
    using lens(1) by (simp add: BatchNormalizeInPlace_def of_option_def Let_def)
qed

lemma bn_value_max:
  "bn_value params c x
   = max 0 (Scale params ! nat c
            * ((x - BNMean params ! nat c) / sqrt (BNVariance params ! nat c + Epsilon params))
            + Shift params ! nat c)"
  by (simp add: bn_value_def Let_def max_def)

text \<open>
  C3.  For a feature map that satisfies the invariants of the data model and
  parameters whose four arrays have length \<open>fm.Channels\<close>, \<^verbatim>\<open>BatchNormalize\<close> and
  \<^verbatim>\<open>BatchNormalizeInPlace\<close> both return a feature map of the same dimensions in
  which the element at \<open>(c, h, w)\<close> is
  \<open>max(0, scale[c] * ((x - mean[c]) / sqrt(variance[c] + epsilon)) + shift[c])\<close>
  for the element \<open>x\<close> of the input at \<open>(c, h, w)\<close>.  Neither function has an
  activation flag among its arguments: the clamp is unconditional.
\<close>

theorem BatchNormalize_fused_relu:
  assumes "wf_FeatureMap fm"
    and "int (length (BNMean params)) = Channels fm"
    and "int (length (BNVariance params)) = Channels fm"
    and "int (length (Scale params)) = Channels fm"
    and "int (length (Shift params)) = Channels fm"
  shows "\<exists>out out'. BatchNormalize fm params = Returned out
         \<and> BatchNormalizeInPlace fm params = Returned out'
         \<and> Height out = Height fm \<and> Width out = Width fm \<and> Channels out = Channels fm
         \<and> Height out' = Height fm \<and> Width out' = Width fm \<and> Channels out' = Channels fm
         \<and> (\<forall>c h w. 0 \<le> c \<and> c < Channels fm \<and> 0 \<le> h \<and> h < Height fm
                    \<and> 0 \<le> w \<and> w < Width fm \<longrightarrow>
               Get out c h w =
                 Some (max 0 (Scale params ! nat c
                              * ((elem_at fm c h w - BNMean params ! nat c)
                                 / sqrt (BNVariance params ! nat c + Epsilon params))
                              + Shift params ! nat c))
               \<and> Get out' c h w =
                 Some (max 0 (Scale params ! nat c
                              * ((elem_at fm c h w - BNMean params ! nat c)
                                 / sqrt (BNVariance params ! nat c + Epsilon params))
                              + Shift params ! nat c)))"
proof -
  let ?H = "Height fm" and ?W = "Width fm" and ?C = "Channels fm"
  let ?val = "\<lambda>p. bn_value params (fst p) (elem_at fm (fst p) (fst (snd p)) (snd (snd p)))"
  let ?u = "\<lambda>p (d :: real list). d[flat ?H ?W p := bn_value params (fst p) (d ! flat ?H ?W p)]"
  define out where "out = fm\<lparr>Data := fold (put ?H ?W ?val) (box ?C ?H ?W) (Data fm)\<rparr>"
  define out' where "out' = fm\<lparr>Data := fold ?u (box ?C ?H ?W) (Data fm)\<rparr>"
  have len: "length (Data fm) = nat (?H * ?W * ?C)" by (rule wf_length[OF assms(1)])
  have r1: "BatchNormalize fm params = Returned out"
    unfolding out_def by (rule BatchNormalize_result[OF assms])
  have r2: "BatchNormalizeInPlace fm params = Returned out'"
    unfolding out'_def by (rule BatchNormalizeInPlace_result[OF assms])
  have d: "Height out = ?H" "Width out = ?W" "Channels out = ?C"
    "Height out' = ?H" "Width out' = ?W" "Channels out' = ?C"
    by (simp_all add: out_def out'_def)
  have lens: "length (Data out) = nat (?H * ?W * ?C)" "length (Data out') = nat (?H * ?W * ?C)"
    using fold_inplace_length[of "flat ?H ?W" "\<lambda>p x. bn_value params (fst p) x"
        "box ?C ?H ?W" "Data fm"]
    by (simp_all add: out_def out'_def fold_put_length len)
  have elems: "Get out c h w = Some (bn_value params c (elem_at fm c h w))
             \<and> Get out' c h w = Some (bn_value params c (elem_at fm c h w))"
    if r: "0 \<le> c \<and> c < ?C \<and> 0 \<le> h \<and> h < ?H \<and> 0 \<le> w \<and> w < ?W" for c h w
  proof -
    have q: "(c, h, w) \<in> set (box ?C ?H ?W)" using r by (simp add: set_box)
    have lt: "flat ?H ?W (c, h, w) < length (Data fm)"
      using flat_in_box(2)[OF q] len by simp
    have e: "Data fm ! flat ?H ?W (c, h, w) = elem_at fm c h w"
      by (simp add: elem_at_def flat_def)
    have "Get out c h w = Some (Data out ! flat ?H ?W (c, h, w))"
      using Get_in_box[of c h w out] q d lens by simp
    also have "Data out ! flat ?H ?W (c, h, w) = bn_value params c (elem_at fm c h w)"
      unfolding out_def using q len by (simp add: fold_put_hit[where C = ?C])
    finally have 1: "Get out c h w = Some (bn_value params c (elem_at fm c h w))" .
    have "Get out' c h w = Some (Data out' ! flat ?H ?W (c, h, w))"
      using Get_in_box[of c h w out'] q d lens by simp
    also have "Data out' ! flat ?H ?W (c, h, w)
               = bn_value params (fst (c, h, w)) (Data fm ! flat ?H ?W (c, h, w))"
      unfolding out'_def
      using fold_inplace_hit[OF flat_inj_on_box distinct_box q lt,
          where g = "\<lambda>p x. bn_value params (fst p) x"]
      by simp
    finally have 2: "Get out' c h w = Some (bn_value params c (elem_at fm c h w))"
      by (simp add: e)
    from 1 2 show ?thesis by simp
  qed
  show ?thesis
    using r1 r2 d elems
    by (intro exI[of _ out] exI[of _ out'] conjI) (simp_all add: bn_value_max)
qed

theorem BatchNormalize_fused_relu_witness:
  "\<exists>out out'.
     BatchNormalize \<lparr>Height = 1, Width = 2, Channels = 1, Data = [1, - 5]\<rparr>
       \<lparr>BNMean = [1], BNVariance = [3], Scale = [2], Shift = [1], Epsilon = 1\<rparr> = Returned out
   \<and> BatchNormalizeInPlace \<lparr>Height = 1, Width = 2, Channels = 1, Data = [1, - 5]\<rparr>
       \<lparr>BNMean = [1], BNVariance = [3], Scale = [2], Shift = [1], Epsilon = 1\<rparr> = Returned out'
   \<and> Height out = 1 \<and> Width out = 2 \<and> Channels out = 1
   \<and> Height out' = 1 \<and> Width out' = 2 \<and> Channels out' = 1"
proof -
  let ?fm = "\<lparr>Height = 1, Width = 2, Channels = 1, Data = [1, - 5 :: real]\<rparr>"
  let ?params = "\<lparr>BNMean = [1], BNVariance = [3], Scale = [2], Shift = [1], Epsilon = 1\<rparr>"
  have 1: "wf_FeatureMap ?fm" by (simp add: wf_FeatureMap_def)
  have 2: "int (length (BNMean ?params)) = Channels ?fm"
    "int (length (BNVariance ?params)) = Channels ?fm"
    "int (length (Scale ?params)) = Channels ?fm"
    "int (length (Shift ?params)) = Channels ?fm"
    by simp_all
  from BatchNormalize_fused_relu[OF 1 2]
  obtain out out' where "BatchNormalize ?fm ?params = Returned out"
    "BatchNormalizeInPlace ?fm ?params = Returned out'"
    "Height out = Height ?fm" "Width out = Width ?fm" "Channels out = Channels ?fm"
    "Height out' = Height ?fm" "Width out' = Width ?fm" "Channels out' = Channels ?fm"
    by blast
  then show ?thesis by (intro exI[of _ out] exI[of _ out']) simp
qed

section \<open>Stochastic pooling\<close>

lemma collect_positive:
  fixes rd :: "'i \<Rightarrow> real option"
  shows "for_each xs (\<lambda>x (values, sum). Option.bind (rd x) (\<lambda>val.
            Some (if val > 0 then (values @ [val], sum + val) else (values, sum)))) (vs0, s0)
         = (if \<forall>x\<in>set xs. rd x \<noteq> None
            then Some (vs0 @ filter (\<lambda>v. v > 0) (map (\<lambda>x. the (rd x)) xs),
                       s0 + sum_list (filter (\<lambda>v. v > 0) (map (\<lambda>x. the (rd x)) xs)))
            else None)"
proof (induction xs arbitrary: vs0 s0)
  case Nil
  then show ?case by simp
next
  case (Cons x xs)
  show ?case
  proof (cases "rd x")
    case None
    then show ?thesis by simp
  next
    case (Some v)
    then show ?thesis using Cons.IH by (auto simp: add.assoc)
  qed
qed

lemma product_concat: "concat (map (\<lambda>x. map (Pair x) ys) xs) = List.product xs ys"
  by (induction xs) simp_all

lemma stochastic_window_flat:
  "stochastic_window input k s p
   = for_each (List.product [fst (snd p) * s..fst (snd p) * s + k - 1]
                            [snd (snd p) * s..snd (snd p) * s + k - 1])
       (\<lambda>q (values, sum). Option.bind (GetUnsafe input (fst p) (fst q) (snd q)) (\<lambda>val.
            Some (if val > 0 then (values @ [val], sum + val) else (values, sum)))) ([], 0)"
  unfolding stochastic_window_def for_each_nested product_concat by simp

lemma stochastic_window_eq:
  "stochastic_window input k s p
   = (let cells = List.product [fst (snd p) * s..fst (snd p) * s + k - 1]
                               [snd (snd p) * s..snd (snd p) * s + k - 1]
      in if \<forall>q\<in>set cells. GetUnsafe input (fst p) (fst q) (snd q) \<noteq> None
         then Some (filter (\<lambda>v. v > 0) (map (\<lambda>q. the (GetUnsafe input (fst p) (fst q) (snd q))) cells),
                    sum_list (filter (\<lambda>v. v > 0)
                               (map (\<lambda>q. the (GetUnsafe input (fst p) (fst q) (snd q))) cells)))
         else None)"
  unfolding stochastic_window_flat
  by (simp only: collect_positive Let_def append_Nil add_0_left)

lemma GetUnsafe_the:
  "GetUnsafe fm c h w \<noteq> None \<Longrightarrow> the (GetUnsafe fm c h w) = elem_at fm c h w"
  by (simp add: GetUnsafe_def slice_get_def elem_at_def split: if_splits)

lemma positive_sum_nonzero:
  fixes vs :: "real list"
  assumes "\<forall>v\<in>set vs. 0 < v" "vs \<noteq> []"
  shows "sum_list vs \<noteq> 0"
proof -
  have "0 < sum_list vs" using assms by (induction vs) (auto intro: add_pos_nonneg sum_list_nonneg less_imp_le)
  then show ?thesis by simp
qed

lemma stochastic_selected_first_positive:
  assumes "stochastic_window input k s (c, i, j) = Some vs"
  shows "stochastic_selected vs = first_positive (window_values input c (i * s) (j * s) k)"
proof -
  let ?cells = "List.product [i * s..i * s + k - 1] [j * s..j * s + k - 1]"
  let ?rd = "\<lambda>q. the (GetUnsafe input c (fst q) (snd q))"
  let ?pos = "filter (\<lambda>v. v > 0) (map ?rd ?cells)"
  from assms have ok: "\<forall>q\<in>set ?cells. GetUnsafe input c (fst q) (snd q) \<noteq> None"
    and vs: "vs = (?pos, sum_list ?pos)"
    unfolding stochastic_window_eq by (simp_all add: Let_def split: if_splits)
  have "map ?rd ?cells = map (\<lambda>q. elem_at input c (fst q) (snd q)) ?cells"
    using ok by (intro map_cong refl GetUnsafe_the) blast
  then have pos: "?pos = filter (\<lambda>v. v > 0) (window_values input c (i * s) (j * s) k)"
    unfolding window_values_def by (rule arg_cong)
  have nz: "sum_list ?pos \<noteq> 0" if "?pos \<noteq> []"
    by (rule positive_sum_nonzero) (use that in auto)
  show ?thesis
  proof (cases "?pos")
    case Nil
    then show ?thesis unfolding vs stochastic_selected_def first_positive_def pos[symmetric] by simp
  next
    case (Cons v rest)
    then have "sum_list ?pos \<noteq> 0" using nz by simp
    then show ?thesis
      unfolding vs stochastic_selected_def first_positive_def pos[symmetric] using Cons by simp
  qed
qed


lemma StochasticPooling_unfold:
  "StochasticPooling input k s =
     of_option (Option.bind (go_div (Height input - k) s) (\<lambda>qh.
       Option.bind (go_div (Width input - k) s) (\<lambda>qw.
         Option.bind (NewFeatureMap (qh + 1) (qw + 1) (Channels input)) (\<lambda>out0.
           for_each [0..Channels input - 1] (\<lambda>c.
             for_each [0..qh + 1 - 1] (\<lambda>i.
               for_each [0..qw + 1 - 1] (\<lambda>j output.
                 Option.bind (stochastic_window input k s (c, i, j)) (\<lambda>vs.
                   if length (fst vs) = 0 \<or> snd vs = 0 then SetUnsafe output c i j 0
                   else Option.bind (slice_get (fst vs) 0) (SetUnsafe output c i j))))) out0))))"
  unfolding StochasticPooling_def stochastic_window_def Let_def fst_conv snd_conv case_prod_beta
  by (rule refl)

lemma stochastic_store:
  fixes fm :: "real FeatureMap"
  assumes sh: "same_shape H W C (nat (H * W * C)) fm" and q: "(c, i, j) \<in> set (box C H W)"
  shows "Option.bind (stochastic_window input k s (c, i, j)) (\<lambda>vs.
            if length (fst vs) = 0 \<or> snd vs = 0 then SetUnsafe fm c i j 0
            else Option.bind (slice_get (fst vs) 0) (SetUnsafe fm c i j))
         = (if stochastic_window input k s (c, i, j) \<noteq> None
            then Some (fm\<lparr>Data := put H W (\<lambda>p. stochastic_selected (the (stochastic_window input k s p)))
                                    (c, i, j) (Data fm)\<rparr>)
            else None)"
proof (cases "stochastic_window input k s (c, i, j)")
  case None
  then show ?thesis by simp
next
  case (Some vs)
  have g: "slice_get (fst vs) 0 = Some (fst vs ! 0)" if "fst vs \<noteq> []"
    using that by (simp add: slice_get_def)
  show ?thesis
    unfolding Some SetUnsafe_in_box[OF sh q]
    by (simp add: g put_def stochastic_selected_def Some)
qed


lemma StochasticPooling_result:
  assumes s: "s \<noteq> 0"
    and OH: "OH = go_quot (Height input - k) s + 1"
    and OW: "OW = go_quot (Width input - k) s + 1"
    and nn: "0 \<le> OH * OW * Channels input"
  shows "StochasticPooling input k s
         = (if \<forall>p\<in>set (box (Channels input) OH OW). stochastic_window input k s p \<noteq> None
            then Returned \<lparr>Height = OH, Width = OW, Channels = Channels input,
                   Data = fold (put OH OW (\<lambda>p. stochastic_selected (the (stochastic_window input k s p))))
                            (box (Channels input) OH OW)
                            (replicate (nat (OH * OW * Channels input)) 0)\<rparr>
            else Panicked RuntimeError)"
proof -
  let ?C = "Channels input"
  let ?L = "nat (OH * OW * ?C)"
  let ?sel = "\<lambda>p. stochastic_selected (the (stochastic_window input k s p))"
  let ?out0 = "\<lparr>Height = OH, Width = OW, Channels = ?C, Data = replicate ?L (0::real)\<rparr>"
  let ?body = "\<lambda>c i j output.
      Option.bind (stochastic_window input k s (c, i, j)) (\<lambda>vs.
        if length (fst vs) = 0 \<or> snd vs = 0 then SetUnsafe output c i j 0
        else Option.bind (slice_get (fst vs) 0) (SetUnsafe output c i j))"
  have loop: "for_each [0..?C - 1] (\<lambda>c. for_each [0..OH - 1] (\<lambda>i. for_each [0..OW - 1] (?body c i))) ?out0
        = (if \<forall>p\<in>set (List.product [0..?C - 1] (List.product [0..OH - 1] [0..OW - 1])).
                 stochastic_window input k s p \<noteq> None
           then Some (?out0\<lparr>Data :=
                  fold (put OH OW ?sel)
                    (List.product [0..?C - 1] (List.product [0..OH - 1] [0..OW - 1]))
                    (Data ?out0)\<rparr>)
           else None)"
  proof (rule for_each3_Data_if[where H = OH and W = OW and C = ?C and L = ?L])
    show "same_shape OH OW ?C ?L ?out0" by (simp add: same_shape_def)
  next
    fix q :: "int \<times> int \<times> int" and d :: "real list"
    assume "length d = ?L"
    then show "length (put OH OW ?sel q d) = ?L" by (simp add: put_length)
  next
    fix c i j and fm :: "real FeatureMap"
    assume m: "c \<in> set [0..?C - 1]" "i \<in> set [0..OH - 1]" "j \<in> set [0..OW - 1]"
      and sh: "same_shape OH OW ?C ?L fm"
    have q: "(c, i, j) \<in> set (box ?C OH OW)" using m by (simp add: set_box)
    show "?body c i j fm
          = (if stochastic_window input k s (c, i, j) \<noteq> None
             then Some (fm\<lparr>Data := put OH OW ?sel (c, i, j) (Data fm)\<rparr>) else None)"
      by (rule stochastic_store[OF sh q])
  qed
  have new: "NewFeatureMap OH OW ?C = Some ?out0" by (rule NewFeatureMap_Some[OF nn])
  have u: "StochasticPooling input k s
           = of_option (Option.bind (NewFeatureMap OH OW ?C) (\<lambda>out0.
               for_each [0..?C - 1] (\<lambda>c. for_each [0..OH - 1] (\<lambda>i.
                 for_each [0..OW - 1] (?body c i))) out0))"
    unfolding StochasticPooling_unfold OH OW using s by (simp add: go_div_def)
  show ?thesis
    unfolding u new bind.bind_lunit loop
    by (simp add: of_option_def box_def)
qed

lemma StochasticPooling_panics:
  assumes "s = 0 \<or> (go_quot (Height input - k) s + 1) * (go_quot (Width input - k) s + 1) * Channels input < 0"
  shows "StochasticPooling input k s = Panicked RuntimeError"
  using assms unfolding StochasticPooling_unfold
  by (auto simp: go_div_def of_option_def NewFeatureMap_def make_slice_def)


lemma pooling_window_fits:
  fixes n k s i :: int
  assumes s: "0 < s" and fit: "k \<le> n" and i: "i < (n - k) div s + 1"
  shows "i * s + k \<le> n"
proof -
  have "i \<le> (n - k) div s" using i by simp
  then have "i * s \<le> ((n - k) div s) * s" using s by (simp add: mult_right_mono)
  also have "\<dots> \<le> n - k"
    using pos_mod_sign[OF s, of "n - k"] div_mult_mod_eq[of "n - k" s] by linarith
  finally show ?thesis by simp
qed

lemma stochastic_window_Some:
  assumes wf: "wf_FeatureMap input" and s: "0 < s"
    and fh: "k \<le> Height input" and fw: "k \<le> Width input"
    and p: "p \<in> set (box (Channels input) ((Height input - k) div s + 1) ((Width input - k) div s + 1))"
  shows "stochastic_window input k s p \<noteq> None"
proof -
  obtain c i j where pe: "p = (c, i, j)" by (cases p) auto
  have r: "0 \<le> c" "c < Channels input" "0 \<le> i" "i < (Height input - k) div s + 1"
    "0 \<le> j" "j < (Width input - k) div s + 1"
    using p by (simp_all add: pe set_box)
  have hi: "i * s + k \<le> Height input" by (rule pooling_window_fits[OF s fh r(4)])
  have wj: "j * s + k \<le> Width input" by (rule pooling_window_fits[OF s fw r(6)])
  have i0: "0 \<le> i * s" and j0: "0 \<le> j * s" using r(3,5) s by simp_all
  have all: "\<forall>q\<in>set (List.product [i * s..i * s + k - 1] [j * s..j * s + k - 1]).
               GetUnsafe input c (fst q) (snd q) \<noteq> None"
  proof
    fix q assume q: "q \<in> set (List.product [i * s..i * s + k - 1] [j * s..j * s + k - 1])"
    have qq: "i * s \<le> fst q" "fst q \<le> i * s + k - 1" "j * s \<le> snd q" "snd q \<le> j * s + k - 1"
      using q by (simp_all add: mem_Times_iff)
    have h: "0 \<le> fst q" "fst q < Height input" using qq(1,2) hi i0 by linarith+
    have w: "0 \<le> snd q" "snd q < Width input" using qq(3,4) wj j0 by linarith+
    have "GetUnsafe input c (fst q) (snd q)
          = Some (Data input ! nat (c * Height input * Width input + fst q * Width input + snd q))"
      by (rule GetUnsafe_Some[OF wf r(1,2) h w])
    then show "GetUnsafe input c (fst q) (snd q) \<noteq> None" by simp
  qed
  have "stochastic_window input k s (c, i, j) \<noteq> None"
    unfolding stochastic_window_eq Let_def fst_conv snd_conv
    by (subst if_P[OF all]) simp
  then show ?thesis unfolding pe .
qed


lemma StochasticPooling_returns:
  assumes wf: "wf_FeatureMap input" and s: "0 < s"
    and fh: "k \<le> Height input" and fw: "k \<le> Width input"
  shows "\<exists>out. StochasticPooling input k s = Returned out"
proof -
  let ?OH = "go_quot (Height input - k) s + 1" and ?OW = "go_quot (Width input - k) s + 1"
  have qh: "go_quot (Height input - k) s = (Height input - k) div s"
    using fh s by (simp add: go_quot_nonneg)
  have qw: "go_quot (Width input - k) s = (Width input - k) div s"
    using fw s by (simp add: go_quot_nonneg)
  have "0 \<le> (Height input - k) div s" "0 \<le> (Width input - k) div s"
    using fh fw s by (simp_all add: pos_imp_zdiv_nonneg_iff)
  then have pos: "0 \<le> ?OH" "0 \<le> ?OW" unfolding qh qw by simp_all
  have C: "0 \<le> Channels input" using wf by (simp add: wf_FeatureMap_def)
  have nn: "0 \<le> ?OH * ?OW * Channels input" using pos C by simp
  have s0: "s \<noteq> 0" using s by simp
  have all: "\<forall>p\<in>set (box (Channels input) ?OH ?OW). stochastic_window input k s p \<noteq> None"
    unfolding qh qw using stochastic_window_Some[OF wf s fh fw] by blast
  show ?thesis
    unfolding StochasticPooling_result[OF s0 refl refl nn] if_P[OF all] by blast
qed

lemma StochasticPooling_Returned:
  assumes ret: "StochasticPooling input k s = Returned out"
  shows "Height out = go_quot (Height input - k) s + 1"
    and "Width out = go_quot (Width input - k) s + 1"
    and "Channels out = Channels input"
    and "0 \<le> c \<Longrightarrow> c < Channels out \<Longrightarrow> 0 \<le> i \<Longrightarrow> i < Height out \<Longrightarrow> 0 \<le> j \<Longrightarrow> j < Width out \<Longrightarrow>
         Get out c i j = Some (first_positive (window_values input c (i * s) (j * s) k))"
proof -
  let ?OH = "go_quot (Height input - k) s + 1" and ?OW = "go_quot (Width input - k) s + 1"
  let ?C = "Channels input"
  let ?sel = "\<lambda>p. stochastic_selected (the (stochastic_window input k s p))"
  let ?d = "fold (put ?OH ?OW ?sel) (box ?C ?OH ?OW) (replicate (nat (?OH * ?OW * ?C)) 0)"
  have np: "\<not> (s = 0 \<or> ?OH * ?OW * ?C < 0)"
  proof
    assume "s = 0 \<or> ?OH * ?OW * ?C < 0"
    then have "StochasticPooling input k s = Panicked RuntimeError"
      by (rule StochasticPooling_panics)
    then show False using ret by simp
  qed
  have s0: "s \<noteq> 0" using np by blast
  have nn: "0 \<le> ?OH * ?OW * ?C" using np by linarith
  note res = StochasticPooling_result[OF s0 refl refl nn]
  have all: "\<forall>p\<in>set (box ?C ?OH ?OW). stochastic_window input k s p \<noteq> None"
  proof (rule ccontr)
    assume "\<not> ?thesis"
    then have "StochasticPooling input k s = Panicked RuntimeError"
      unfolding res by (rule if_not_P)
    then show False using ret by simp
  qed
  have out: "out = \<lparr>Height = ?OH, Width = ?OW, Channels = ?C, Data = ?d\<rparr>"
    using ret unfolding res if_P[OF all] by simp
  show H: "Height out = ?OH" and W: "Width out = ?OW" and Ch: "Channels out = ?C"
    by (simp_all add: out)
  have len: "length (Data out) = nat (Height out * Width out * Channels out)"
    by (simp add: out fold_put_length)
  assume r: "0 \<le> c" "c < Channels out" "0 \<le> i" "i < Height out" "0 \<le> j" "j < Width out"
  have q: "(c, i, j) \<in> set (box (Channels out) (Height out) (Width out))"
    using r by (simp add: set_box)
  then have q': "(c, i, j) \<in> set (box ?C ?OH ?OW)" unfolding H W Ch .
  obtain vs where vs: "stochastic_window input k s (c, i, j) = Some vs"
    using all q' by blast
  have "Data out ! flat ?OH ?OW (c, i, j) = ?sel (c, i, j)"
    unfolding out FeatureMap.simps
    by (rule fold_put_hit[OF subset_refl q']) simp
  also have "\<dots> = first_positive (window_values input c (i * s) (j * s) k)"
    unfolding vs option.sel by (rule stochastic_selected_first_positive[OF vs])
  finally have "Data out ! flat (Height out) (Width out) (c, i, j)
                = first_positive (window_values input c (i * s) (j * s) k)"
    unfolding H W .
  then show "Get out c i j = Some (first_positive (window_values input c (i * s) (j * s) k))"
    unfolding Get_in_box[OF q len] by simp
qed


text \<open>
  C6.  \<^verbatim>\<open>StochasticPooling\<close> draws nothing at random: its result is a function of the
  input, the kernel size and the stride alone.  Whenever it returns (and it does on
  every well-formed input with a positive stride and a window that fits), the output
  has \<open>(H - k) / stride + 1\<close> rows and \<open>(W - k) / stride + 1\<close> columns, and its element
  \<open>(c, i, j)\<close> is the first positive value of the window that starts at
  \<open>(i * stride, j * stride)\<close>, scanned row by row, and \<open>0\<close> when the window holds no
  positive value.  The sum of the collected values is only compared with \<open>0\<close>, and a
  sum of positive values is not \<open>0\<close> (also after rounding), so the second half of the
  test \<^verbatim>\<open>len(values) == 0 || sum == 0\<close> never decides.
\<close>

theorem StochasticPooling_first_positive:
  "(wf_FeatureMap input \<and> 0 < stride \<and> kernelSize \<le> Height input \<and> kernelSize \<le> Width input
      \<longrightarrow> (\<exists>out. StochasticPooling input kernelSize stride = Returned out))
   \<and> (\<forall>out. StochasticPooling input kernelSize stride = Returned out \<longrightarrow>
          Height out = go_quot (Height input - kernelSize) stride + 1
          \<and> Width out = go_quot (Width input - kernelSize) stride + 1
          \<and> Channels out = Channels input
          \<and> (\<forall>c i j. 0 \<le> c \<and> c < Channels out \<and> 0 \<le> i \<and> i < Height out
                       \<and> 0 \<le> j \<and> j < Width out \<longrightarrow>
                Get out c i j
                = Some (first_positive
                          (window_values input c (i * stride) (j * stride) kernelSize))))"
proof (intro conjI impI allI)
  assume "wf_FeatureMap input \<and> 0 < stride \<and> kernelSize \<le> Height input \<and> kernelSize \<le> Width input"
  then show "\<exists>out. StochasticPooling input kernelSize stride = Returned out"
    using StochasticPooling_returns[of input stride kernelSize] by blast
next
  fix out assume "StochasticPooling input kernelSize stride = Returned out"
  then show "Height out = go_quot (Height input - kernelSize) stride + 1"
    by (rule StochasticPooling_Returned(1))
next
  fix out assume "StochasticPooling input kernelSize stride = Returned out"
  then show "Width out = go_quot (Width input - kernelSize) stride + 1"
    by (rule StochasticPooling_Returned(2))
next
  fix out assume "StochasticPooling input kernelSize stride = Returned out"
  then show "Channels out = Channels input"
    by (rule StochasticPooling_Returned(3))
next
  fix out c i j
  assume ret: "StochasticPooling input kernelSize stride = Returned out"
    and r: "0 \<le> c \<and> c < Channels out \<and> 0 \<le> i \<and> i < Height out \<and> 0 \<le> j \<and> j < Width out"
  show "Get out c i j
        = Some (first_positive (window_values input c (i * stride) (j * stride) kernelSize))"
    using StochasticPooling_Returned(4)[OF ret, of c i j] r by blast
qed

theorem StochasticPooling_first_positive_witness:
  "\<exists>out. StochasticPooling
           \<lparr>Height = 3, Width = 3, Channels = 1, Data = [- 1, 3, 0, 2, - 5, - 2, 4, - 3, 0]\<rparr> 2 1
         = Returned out
       \<and> Height out = 2 \<and> Width out = 2 \<and> Channels out = 1
       \<and> Get out 0 0 0 = Some 3 \<and> Get out 0 0 1 = Some 3
       \<and> Get out 0 1 0 = Some 2 \<and> Get out 0 1 1 = Some 0"
proof -
  let ?inp = "\<lparr>Height = 3, Width = 3, Channels = 1,
               Data = [- 1, 3, 0, 2, - 5, - 2, 4, - 3, 0 :: real]\<rparr>"
  note t = StochasticPooling_first_positive[of ?inp 1 2]
  have v: "wf_FeatureMap ?inp \<and> (0::int) < 1 \<and> 2 \<le> Height ?inp \<and> 2 \<le> Width ?inp"
    by (simp add: wf_FeatureMap_def)
  from t v obtain out where ret: "StochasticPooling ?inp 2 1 = Returned out" by blast
  have q: "go_quot 1 1 = 1" by (simp add: go_quot_def)
  from t ret have H: "Height out = 2" and W: "Width out = 2" and C: "Channels out = 1"
    by (simp_all add: q)
  have e: "Get out 0 i j = Some (first_positive (window_values ?inp 0 (i * 1) (j * 1) 2))"
    if "0 \<le> i" "i < 2" "0 \<le> j" "j < 2" for i j
    using t ret that H W C by simp
  have w: "first_positive (window_values ?inp 0 0 0 2) = 3"
    "first_positive (window_values ?inp 0 0 1 2) = 3"
    "first_positive (window_values ?inp 0 1 0 2) = 2"
    "first_positive (window_values ?inp 0 1 1 2) = 0"
    by code_simp+
  show ?thesis
    using ret H W C e[of 0 0] e[of 0 1] e[of 1 0] e[of 1 1] w by simp
qed


end
